theory Spec2Isabelle
  imports Main "HOL-Library.Char_ord" "HOL-Library.List_Lexorder"
begin

section \<open>JavaScript values and strings\<close>

text \<open>
  A JavaScript string is modelled as a list of code units below 256 (the type \<open>char\<close>).
  On such strings \<open>trim\<close>, \<open>toLowerCase\<close> and the regular-expression classes
  \<open>\D\<close> and \<open>\s\<close> are the functions below; code units from 256 upwards are outside the
  model. A value that may be \<open>null\<close>, \<open>undefined\<close> or not a string at all is a
  \<open>js_value\<close>.
\<close>

datatype js_value = Undefined | Null | Str string | NonString

definition isDigit :: "char \<Rightarrow> bool" where
  "isDigit c = (c \<in> set ''0123456789'')"

definition isSpace :: "char \<Rightarrow> bool" where
  "isSpace c = ((of_char c :: nat) \<in> {9, 10, 11, 12, 13, 32, 160})"

definition trim :: "string \<Rightarrow> string" where
  "trim s = rev (dropWhile isSpace (rev (dropWhile isSpace s)))"

definition lowerChar :: "char \<Rightarrow> char" where
  "lowerChar c =
     (let n = (of_char c :: nat)
      in if (65 \<le> n \<and> n \<le> 90) \<or> (192 \<le> n \<and> n \<le> 222 \<and> n \<noteq> 215)
         then char_of (n + 32) else c)"

definition toLowerCase :: "string \<Rightarrow> string" where
  "toLowerCase s = map lowerChar s"

fun startsWith :: "string \<Rightarrow> string \<Rightarrow> bool" where
  "startsWith s [] = True"
| "startsWith [] (p # ps) = False"
| "startsWith (c # cs) (p # ps) = (c = p \<and> startsWith cs ps)"

fun includesStr :: "string \<Rightarrow> string \<Rightarrow> bool" where
  "includesStr [] t = startsWith [] t"
| "includesStr (c # cs) t = (startsWith (c # cs) t \<or> includesStr cs t)"

section \<open>Identity normalizer (candidate-dedup.js)\<close>

text \<open>\<open>normalizeEmail\<close>: a falsy or non-string value gives \<open>null\<close>; otherwise the value is
  trimmed and lower-cased, and an empty result gives \<open>null\<close>.\<close>

fun normalizeEmail :: "js_value \<Rightarrow> string option" where
  "normalizeEmail (Str v) =
     (if v = [] then None
      else let normalized = toLowerCase (trim v)
           in if normalized = [] then None else Some normalized)"
| "normalizeEmail _ = None"

text \<open>\<open>normalizePhone\<close>: \<open>value.replace(/\D/g, '')\<close> keeps the digits; the three
  \<open>if\<close>s of the source follow in their order.\<close>

fun normalizePhone :: "js_value \<Rightarrow> string option" where
  "normalizePhone (Str v) =
     (if v = [] then None
      else let digits = filter isDigit v
           in if digits = [] then None
              else if length digits = 10 then Some (''+1'' @ digits)
              else if length digits = 11 \<and> startsWith digits ''1'' then Some (''+'' @ digits)
              else Some (''+'' @ digits))"
| "normalizePhone _ = None"

text \<open>\<open>normalizeName\<close>: trim, then \<open>replace(/\s+/g, ' ')\<close>: every maximal run of white
  space becomes one blank (written at the last character of the run).\<close>

fun collapseSpaces :: "string \<Rightarrow> string" where
  "collapseSpaces [] = []"
| "collapseSpaces (c # cs) =
     (if isSpace c
      then (case cs of
              [] \<Rightarrow> [CHR '' '']
            | d # ds \<Rightarrow> if isSpace d then collapseSpaces cs else CHR '' '' # collapseSpaces cs)
      else c # collapseSpaces cs)"

fun normalizeName :: "js_value \<Rightarrow> string option" where
  "normalizeName (Str v) =
     (if v = [] then None
      else let normalized = collapseSpaces (trim v)
           in if normalized = [] then None else Some normalized)"
| "normalizeName _ = None"

text \<open>\<open>normalizeSkills\<close>: \<open>None\<close> stands for a value that is not an array. A
  \<open>Set\<close> keeps the first occurrence of each element, in insertion order.\<close>

fun uniqueInOrder :: "'a list \<Rightarrow> 'a list" where
  "uniqueInOrder [] = []"
| "uniqueInOrder (x # xs) = x # uniqueInOrder (filter (\<lambda>y. y \<noteq> x) xs)"

fun skillText :: "js_value \<Rightarrow> string" where
  "skillText (Str s) = toLowerCase (trim s)"
| "skillText _ = []"

definition normalizeSkills :: "js_value list option \<Rightarrow> string list" where
  "normalizeSkills skills =
     (case skills of
        None \<Rightarrow> []
      | Some xs \<Rightarrow> uniqueInOrder (filter (\<lambda>s. s \<noteq> []) (map skillText xs)))"

section \<open>Candidates, payloads and errors\<close>

record payload =
  p_name :: "string option"
  p_email :: "string option"
  p_phone :: "string option"
  p_skills :: "string list"
  p_resume_url :: "string option"

text \<open>A row of the \<open>candidates\<close> table as the store returns it.\<close>

record candidate =
  c_id :: string
  c_row :: payload

text \<open>The result of the existing-record finder: \<open>{ candidate, matchBy }\<close>.\<close>

record found =
  f_candidate :: candidate
  f_matchBy :: string

text \<open>The \<open>details\<close> of a \<open>DuplicateCandidateError\<close>: \<open>{ matchBy }\<close> from the lock,
  \<open>{ candidate, matchBy }\<close> from the finder, or \<open>{}\<close>.\<close>

record details =
  d_candidate :: "candidate option"
  d_matchBy :: "string option"

datatype error = DuplicateCandidateError string details | Error string

fun message :: "error \<Rightarrow> string" where
  "message (DuplicateCandidateError m d) = m"
| "message (Error m) = m"

fun isDuplicate :: "error \<Rightarrow> bool" where
  "isDuplicate (DuplicateCandidateError m d) = True"
| "isDuplicate (Error m) = False"

definition detailsOfFound :: "found \<Rightarrow> details" where
  "detailsOfFound f = \<lparr>d_candidate = Some (f_candidate f), d_matchBy = Some (f_matchBy f)\<rparr>"

definition emptyDetails :: details where
  "emptyDetails = \<lparr>d_candidate = None, d_matchBy = None\<rparr>"

text \<open>\<open>value || null\<close> on a string that may be \<open>null\<close>: the empty string is falsy.\<close>

fun orNull :: "string option \<Rightarrow> string option" where
  "orNull None = None"
| "orNull (Some s) = (if s = [] then None else Some s)"

text \<open>\<open>${x}\<close> in a template literal for a value that may be \<open>undefined\<close>.\<close>

fun textOf :: "string option \<Rightarrow> string" where
  "textOf None = ''undefined''"
| "textOf (Some s) = s"

section \<open>Dedup keys and the in-process exclusion lock (candidate-dedup.js)\<close>

type_synonym key = string

fun keyFor :: "string \<Rightarrow> string option \<Rightarrow> key option" where
  "keyFor prefix None = None"
| "keyFor prefix (Some v) = (if v = [] then None else Some (prefix @ v))"

text \<open>\<open>buildDedupKeys\<close>: the three candidates for a key, \<open>filter(Boolean)\<close>, \<open>sort()\<close>
  (the default sort compares strings by code units).\<close>

definition buildDedupKeys :: "string option \<Rightarrow> string option \<Rightarrow> string option \<Rightarrow> key list" where
  "buildDedupKeys email phone resumeHash =
     sort (List.map_filter (\<lambda>k. k)
       [keyFor ''email:'' email, keyFor ''phone:'' phone, keyFor ''hash:'' resumeHash])"

text \<open>The program state a pipeline run sees: the module-level set
  \<open>inFlightDedupKeys\<close> and the rest of the world (for the pipeline, the history of calls
  made on the store).\<close>

record 'w state =
  inFlightDedupKeys :: "key set"
  world :: 'w

text \<open>The \<open>for\<close> loop of \<open>withDedupLock\<close>: the first key of \<open>keys\<close> that is held.\<close>

fun firstHeld :: "key set \<Rightarrow> key list \<Rightarrow> key option" where
  "firstHeld held [] = None"
| "firstHeld held (k # ks) = (if k \<in> held then Some k else firstHeld held ks)"

text \<open>\<open>key.split(':')[0]\<close>.\<close>

definition matchByOfKey :: "key \<Rightarrow> string" where
  "matchByOfKey k = takeWhile (\<lambda>c. c \<noteq> CHR '':'') k"

definition addKeys :: "key list \<Rightarrow> key set \<Rightarrow> key set" where
  "addKeys keys held = fold insert keys held"

definition deleteKeys :: "key list \<Rightarrow> key set \<Rightarrow> key set" where
  "deleteKeys keys held = fold (\<lambda>k h. h - {k}) keys held"

definition duplicateInFlight :: "key \<Rightarrow> error" where
  "duplicateInFlight k =
     DuplicateCandidateError ''Duplicate candidate is already being processed.''
       \<lparr>d_candidate = None, d_matchBy = Some (matchByOfKey k)\<rparr>"

text \<open>\<open>withDedupLock(keys, fn)\<close>. The operation \<open>fn\<close> is a state transformer that
  returns its value or the error it throws; the \<open>finally\<close> block runs in both cases.\<close>

definition withDedupLock ::
  "key list \<Rightarrow> ('w state \<Rightarrow> (error + 'a) \<times> 'w state) \<Rightarrow> 'w state \<Rightarrow> (error + 'a) \<times> 'w state" where
  "withDedupLock keys fn s =
     (case firstHeld (inFlightDedupKeys s) keys of
        Some k \<Rightarrow> (Inl (duplicateInFlight k), s)
      | None \<Rightarrow>
          (let s1 = s\<lparr>inFlightDedupKeys := addKeys keys (inFlightDedupKeys s)\<rparr>;
               (r, s2) = fn s1
           in (r, s2\<lparr>inFlightDedupKeys := deleteKeys keys (inFlightDedupKeys s2)\<rparr>)))"

text \<open>The single-file \<open>/upload\<close> route builds its keys from the normalized email and phone
  of the form body only: \<open>buildDedupKeys({ email, phone })\<close>, so \<open>resumeHash\<close> is
  \<open>undefined\<close> there.\<close>

definition uploadDedupKeys :: "js_value \<Rightarrow> js_value \<Rightarrow> key list" where
  "uploadDedupKeys bodyEmail bodyPhone =
     buildDedupKeys (normalizeEmail bodyEmail) (normalizePhone bodyPhone) None"

section \<open>Concurrent calls of \<open>withDedupLock\<close>\<close>

text \<open>
  The server runs its asynchronous tasks on one thread: a task runs until its next
  \<open>await\<close>, then another task may run. \<open>withDedupLock\<close> has a single \<open>await\<close>, at
  \<open>fn()\<close>. A call therefore takes two atomic steps: from its entry to that \<open>await\<close>
  (the \<open>for\<close> loop and the \<open>forEach\<close> that adds the keys, or the \<open>throw\<close>), and, once
  \<open>fn()\<close> has settled, the \<open>finally\<close> block. The steps of different calls interleave
  in any order.
\<close>

datatype phase = NotCalled | InCriticalSection | Rejected error | Returned

record attempt =
  a_keys :: "key list"
  a_phase :: phase

record system =
  sys_held :: "key set"
  sys_attempts :: "attempt list"

definition setPhase :: "nat \<Rightarrow> phase \<Rightarrow> attempt list \<Rightarrow> attempt list" where
  "setPhase i p as = as[i := (as ! i)\<lparr>a_phase := p\<rparr>]"

definition callStep :: "nat \<Rightarrow> system \<Rightarrow> system" where
  "callStep i sys =
     (if i < length (sys_attempts sys) \<and> a_phase (sys_attempts sys ! i) = NotCalled
      then (case firstHeld (sys_held sys) (a_keys (sys_attempts sys ! i)) of
              Some k \<Rightarrow> sys\<lparr>sys_attempts := setPhase i (Rejected (duplicateInFlight k)) (sys_attempts sys)\<rparr>
            | None \<Rightarrow> sys\<lparr>sys_held := addKeys (a_keys (sys_attempts sys ! i)) (sys_held sys),
                          sys_attempts := setPhase i InCriticalSection (sys_attempts sys)\<rparr>)
      else sys)"

definition settleStep :: "nat \<Rightarrow> system \<Rightarrow> system" where
  "settleStep i sys =
     (if i < length (sys_attempts sys) \<and> a_phase (sys_attempts sys ! i) = InCriticalSection
      then sys\<lparr>sys_held := deleteKeys (a_keys (sys_attempts sys ! i)) (sys_held sys),
               sys_attempts := setPhase i Returned (sys_attempts sys)\<rparr>
      else sys)"

datatype event = Call nat | Settle nat

fun step :: "event \<Rightarrow> system \<Rightarrow> system" where
  "step (Call i) sys = callStep i sys"
| "step (Settle i) sys = settleStep i sys"

definition initialSystem :: "key list list \<Rightarrow> system" where
  "initialSystem kss = \<lparr>sys_held = {}, sys_attempts = map (\<lambda>ks. \<lparr>a_keys = ks, a_phase = NotCalled\<rparr>) kss\<rparr>"

definition runEvents :: "event list \<Rightarrow> system \<Rightarrow> system" where
  "runEvents evs sys = fold step evs sys"

definition inCS :: "system \<Rightarrow> nat \<Rightarrow> bool" where
  "inCS sys i = (i < length (sys_attempts sys) \<and> a_phase (sys_attempts sys ! i) = InCriticalSection)"

definition keysOf :: "system \<Rightarrow> nat \<Rightarrow> key set" where
  "keysOf sys i = set (a_keys (sys_attempts sys ! i))"

text \<open>The invariant of the lock: a key is in the set exactly when some call inside its
  critical section has it among its keys, and two calls inside their critical sections have
  no key in common.\<close>

definition lockInv :: "system \<Rightarrow> bool" where
  "lockInv sys =
     ((\<forall>k. k \<in> sys_held sys \<longleftrightarrow> (\<exists>i. inCS sys i \<and> k \<in> keysOf sys i)) \<and>
      (\<forall>i j. inCS sys i \<and> inCS sys j \<and> i \<noteq> j \<longrightarrow> keysOf sys i \<inter> keysOf sys j = {}))"


section \<open>The store and the blob store (Supabase client)\<close>

text \<open>
  The client is not part of the repository. Its three asynchronous operations are taken as
  functions of the history of the calls made so far, so that any sequence of answers can
  occur (the store is shared with other writers); every call is appended to the history.
  An error object of the client has a \<open>message\<close>, and a \<open>code\<close> or a \<open>statusCode\<close>;
  \<open>e_statusCode\<close> is the value of \<open>Number(error.statusCode)\<close>, \<open>None\<close> when that is not a
  whole number.
\<close>

datatype column = EmailColumn | PhoneColumn | ResumeUrlColumn

record sb_error =
  e_message :: "string option"
  e_code :: "string option"
  e_statusCode :: "int option"

record select_result =
  sr_data :: "candidate list option"
  sr_error :: "sb_error option"

record insert_result =
  ir_data :: "candidate option"
  ir_error :: "sb_error option"

datatype call =
  SelectEq column string
| StorageUpload string string string
| InsertCandidate payload

record supabase =
  selectEq :: "call list \<Rightarrow> column \<Rightarrow> string \<Rightarrow> select_result"
  storageUpload :: "call list \<Rightarrow> string \<Rightarrow> string \<Rightarrow> string \<Rightarrow> sb_error option"
  insertCandidate :: "call list \<Rightarrow> payload \<Rightarrow> insert_result"
  getPublicUrl :: "string \<Rightarrow> string \<Rightarrow> string option"

text \<open>Computations that read and extend the history and may throw.\<close>

type_synonym ('s, 'a) comp = "'s \<Rightarrow> (error + 'a) \<times> 's"

definition return :: "'a \<Rightarrow> ('s, 'a) comp" where
  "return a s = (Inr a, s)"

definition throw :: "error \<Rightarrow> ('s, 'a) comp" where
  "throw e s = (Inl e, s)"

definition bind :: "('s, 'a) comp \<Rightarrow> ('a \<Rightarrow> ('s, 'b) comp) \<Rightarrow> ('s, 'b) comp" where
  "bind m f s = (case m s of (Inl e, s') \<Rightarrow> (Inl e, s') | (Inr a, s') \<Rightarrow> f a s')"

definition selectRows :: "supabase \<Rightarrow> column \<Rightarrow> string \<Rightarrow> (call list, select_result) comp" where
  "selectRows sb col v log = (Inr (selectEq sb log col v), log @ [SelectEq col v])"

definition uploadBlob :: "supabase \<Rightarrow> string \<Rightarrow> string \<Rightarrow> string \<Rightarrow> (call list, sb_error option) comp" where
  "uploadBlob sb bucket path bytes log =
     (Inr (storageUpload sb log bucket path bytes), log @ [StorageUpload bucket path bytes])"

definition insertRow :: "supabase \<Rightarrow> payload \<Rightarrow> (call list, insert_result) comp" where
  "insertRow sb p log = (Inr (insertCandidate sb log p), log @ [InsertCandidate p])"

section \<open>Existing-record finder (candidate-dedup.js)\<close>

text \<open>The three query functions of the source differ in the column and in the word of the
  error message only. \<open>data[0]\<close> is taken when \<open>data\<close> is a non-empty array.\<close>

definition firstRow :: "candidate list option \<Rightarrow> candidate option" where
  "firstRow d = (case d of Some (c # cs) \<Rightarrow> Some c | _ \<Rightarrow> None)"

definition queryCandidateBy ::
  "column \<Rightarrow> string \<Rightarrow> supabase \<Rightarrow> string option \<Rightarrow> (call list, candidate option) comp" where
  "queryCandidateBy col word sb v =
     (case orNull v of
        None \<Rightarrow> return None
      | Some x \<Rightarrow>
          bind (selectRows sb col x) (\<lambda>res.
            case sr_error res of
              Some e \<Rightarrow> throw (Error (''Failed duplicate check by '' @ word @ '': '' @ textOf (e_message e)))
            | None \<Rightarrow> return (firstRow (sr_data res))))"

definition queryCandidateByEmail :: "supabase \<Rightarrow> string option \<Rightarrow> (call list, candidate option) comp" where
  "queryCandidateByEmail = queryCandidateBy EmailColumn ''email''"

definition queryCandidateByPhone :: "supabase \<Rightarrow> string option \<Rightarrow> (call list, candidate option) comp" where
  "queryCandidateByPhone = queryCandidateBy PhoneColumn ''phone''"

definition queryCandidateByResumeUrl :: "supabase \<Rightarrow> string option \<Rightarrow> (call list, candidate option) comp" where
  "queryCandidateByResumeUrl = queryCandidateBy ResumeUrlColumn ''resume URL''"

definition findExistingCandidate ::
  "supabase \<Rightarrow> string option \<Rightarrow> string option \<Rightarrow> string option \<Rightarrow> (call list, found option) comp" where
  "findExistingCandidate sb email phone resumeUrl =
     bind (queryCandidateByEmail sb email) (\<lambda>byEmail.
       case byEmail of
         Some c \<Rightarrow> return (Some \<lparr>f_candidate = c, f_matchBy = ''email''\<rparr>)
       | None \<Rightarrow>
           bind (queryCandidateByPhone sb phone) (\<lambda>byPhone.
             case byPhone of
               Some c \<Rightarrow> return (Some \<lparr>f_candidate = c, f_matchBy = ''phone''\<rparr>)
             | None \<Rightarrow>
                 bind (queryCandidateByResumeUrl sb resumeUrl) (\<lambda>byResumeUrl.
                   case byResumeUrl of
                     Some c \<Rightarrow> return (Some \<lparr>f_candidate = c, f_matchBy = ''resume''\<rparr>)
                   | None \<Rightarrow> return None)))"

definition isStorageAlreadyExistsError :: "sb_error option \<Rightarrow> bool" where
  "isStorageAlreadyExistsError error =
     (case error of
        None \<Rightarrow> False
      | Some e \<Rightarrow>
          (let statusCode = e_statusCode e;
               msg = toLowerCase (case e_message e of None \<Rightarrow> [] | Some m \<Rightarrow> m)
           in statusCode = Some 409 \<or> includesStr msg ''already exists''))"

definition isUniqueViolation :: "sb_error option \<Rightarrow> bool" where
  "isUniqueViolation error = (case error of None \<Rightarrow> False | Some e \<Rightarrow> e_code e = Some ''23505'')"


section \<open>The per-file pipeline (\<open>saveCandidateFromFile\<close>)\<close>

text \<open>The collaborators outside the repository: reading the temporary file, the PDF text
  extraction followed by \<open>parseResumeText\<close>, and the SHA-256 digest in hexadecimal.\<close>

record parsed =
  r_name :: js_value
  r_email :: js_value
  r_phone :: js_value
  r_skills :: "js_value list option"

record deps =
  readFile :: "string \<Rightarrow> error + string"
  parseResumeBuffer :: "string \<Rightarrow> error + parsed"
  sha256Hex :: "string \<Rightarrow> string"

record upfile =
  f_path :: string
  f_originalname :: string

record config =
  maxFilesPerRequest :: int
  bulkUploadConcurrency :: int
  resumeBucket :: string

definition normalizeCandidatePayload :: "parsed \<Rightarrow> string option \<Rightarrow> payload" where
  "normalizeCandidatePayload p resumeUrl =
     \<lparr>p_name = normalizeName (r_name p),
      p_email = normalizeEmail (r_email p),
      p_phone = normalizePhone (r_phone p),
      p_skills = normalizeSkills (r_skills p),
      p_resume_url = orNull resumeUrl\<rparr>"

definition buildResumeHash :: "deps \<Rightarrow> string \<Rightarrow> string" where
  "buildResumeHash d fileBuffer = sha256Hex d fileBuffer"

text \<open>\<open>buildResumeStoragePath\<close>: the prefix defaults to \<open>uploads\<close>; leading and trailing
  slashes are removed from it.\<close>

definition stripSlashes :: "string \<Rightarrow> string" where
  "stripSlashes s =
     rev (dropWhile (\<lambda>c. c = CHR ''/'') (rev (dropWhile (\<lambda>c. c = CHR ''/'') s)))"

definition buildResumeStoragePath :: "string \<Rightarrow> string option \<Rightarrow> string" where
  "buildResumeStoragePath resumeHash prefix =
     stripSlashes (case orNull prefix of None \<Rightarrow> ''uploads'' | Some p \<Rightarrow> p)
       @ ''/'' @ resumeHash @ ''.pdf''"

definition getResumePublicUrl :: "supabase \<Rightarrow> string \<Rightarrow> string \<Rightarrow> string option" where
  "getResumePublicUrl sb bucket storagePath = orNull (getPublicUrl sb bucket storagePath)"

definition duplicateSkipped :: "found \<Rightarrow> error" where
  "duplicateSkipped f =
     DuplicateCandidateError (''Duplicate candidate skipped (matched by '' @ f_matchBy f @ '').'')
       (detailsOfFound f)"

text \<open>Raises the duplicate when the finder has found a record.\<close>

definition rejectIfFound :: "found option \<Rightarrow> (call list, unit) comp" where
  "rejectIfFound existing =
     (case existing of Some f \<Rightarrow> throw (duplicateSkipped f) | None \<Rightarrow> return ())"

text \<open>The operation that \<open>saveCandidateFromFile\<close> passes to \<open>withDedupLock\<close>, statement
  by statement.\<close>

definition afterInsert ::
  "supabase \<Rightarrow> payload \<Rightarrow> string option \<Rightarrow> insert_result \<Rightarrow> (call list, candidate option) comp" where
  "afterInsert sb p resumeUrl res =
     (case ir_error res of
        Some insertError \<Rightarrow>
          if isUniqueViolation (Some insertError)
          then bind (findExistingCandidate sb (p_email p) (p_phone p) resumeUrl)
                 (\<lambda>existingAfterConflict.
                    throw (DuplicateCandidateError
                      (''Duplicate candidate skipped (matched by ''
                         @ (case existingAfterConflict of
                              Some f \<Rightarrow> f_matchBy f | None \<Rightarrow> ''constraint'') @ '').'')
                      (case existingAfterConflict of
                         Some f \<Rightarrow> detailsOfFound f | None \<Rightarrow> emptyDetails)))
          else throw (Error (''Failed to save candidate in database: ''
                               @ textOf (e_message insertError)))
      | None \<Rightarrow> return (ir_data res))"

definition insertAndResolve ::
  "supabase \<Rightarrow> payload \<Rightarrow> string option \<Rightarrow> (call list, candidate option) comp" where
  "insertAndResolve sb p resumeUrl = bind (insertRow sb p) (afterInsert sb p resumeUrl)"

definition afterUpload ::
  "supabase \<Rightarrow> payload \<Rightarrow> string option \<Rightarrow> sb_error option \<Rightarrow> (call list, candidate option) comp" where
  "afterUpload sb p resumeUrl storageError =
     bind (case storageError of
             Some e \<Rightarrow>
               if \<not> isStorageAlreadyExistsError (Some e)
               then throw (Error (''Failed to upload resume to Supabase Storage: ''
                                    @ textOf (e_message e)))
               else return ()
           | None \<Rightarrow> return ())
       (\<lambda>_. bind (if isStorageAlreadyExistsError storageError
                   then bind (findExistingCandidate sb (p_email p) (p_phone p) resumeUrl)
                          rejectIfFound
                   else return ())
          (\<lambda>_. insertAndResolve sb p resumeUrl))"

definition ingest ::
  "supabase \<Rightarrow> config \<Rightarrow> payload \<Rightarrow> string \<Rightarrow> string \<Rightarrow> string option \<Rightarrow>
     (call list, candidate option) comp" where
  "ingest sb cfg p storagePath fileBuffer resumeUrl =
     bind (findExistingCandidate sb (p_email p) (p_phone p) resumeUrl) (\<lambda>existingBeforeUpload.
       bind (rejectIfFound existingBeforeUpload) (\<lambda>_.
         bind (uploadBlob sb (resumeBucket cfg) storagePath fileBuffer)
           (afterUpload sb p resumeUrl)))"

text \<open>Runs a computation over the history inside the program state.\<close>

definition onWorld :: "('w, 'a) comp \<Rightarrow> ('w state, 'a) comp" where
  "onWorld f s = (case f (world s) of (r, w) \<Rightarrow> (r, s\<lparr>world := w\<rparr>))"

definition saveCandidateFromFile ::
  "deps \<Rightarrow> supabase \<Rightarrow> config \<Rightarrow> upfile \<Rightarrow> (call list state, candidate option) comp" where
  "saveCandidateFromFile d sb cfg f =
     (case readFile d (f_path f) of
        Inl e \<Rightarrow> throw e
      | Inr fileBuffer \<Rightarrow>
          (case parseResumeBuffer d fileBuffer of
             Inl e \<Rightarrow> throw e
           | Inr p \<Rightarrow>
               (let resumeHash = buildResumeHash d fileBuffer;
                    storagePath = buildResumeStoragePath resumeHash None;
                    resumeUrl = getResumePublicUrl sb (resumeBucket cfg) storagePath;
                    payload = normalizeCandidatePayload p resumeUrl;
                    dedupKeys = buildDedupKeys (p_email payload) (p_phone payload) (Some resumeHash)
                in withDedupLock dedupKeys
                     (onWorld (ingest sb cfg payload storagePath fileBuffer resumeUrl)))))"


section \<open>Asynchronous functions\<close>

text \<open>
  The sequential definitions above run an async function from its call to its end without
  another task in between. The server interleaves its tasks: an async function runs from its
  call to its first \<open>await\<close>, and from each resumption to the next \<open>await\<close> or to its end,
  and between two such turns any other task may take turns. A \<open>proc\<close> is the promise of a
  call in progress: settled with a value or an error (\<open>Ret\<close>), or suspended at an \<open>await\<close>
  (\<open>Await k\<close>, where \<open>k\<close> is the turn taken at the resumption: it returns the promise after
  the turn and the state after it). A \<open>task\<close> is a call: its first turn.
\<close>

datatype ('s, 'a) proc = Ret "error + 'a" | Await "'s \<Rightarrow> ('s, 'a) proc \<times> 's"

type_synonym ('s, 'a) task = "'s \<Rightarrow> ('s, 'a) proc \<times> 's"

text \<open>\<open>onSettle p f\<close> goes on with \<open>f\<close> in the turn in which \<open>p\<close> settles. (The recursive
  call is written through \<open>map_prod\<close>, as primitive recursion requires; it is
  \<open>case k s2 of (p, s3) \<Rightarrow> onSettle p f s3\<close>.)\<close>

primrec onSettle :: "('s, 'a) proc \<Rightarrow> ((error + 'a) \<Rightarrow> ('s, 'b) task) \<Rightarrow> ('s, 'b) task" where
  "onSettle (Ret r) f s = f r s"
| "onSettle (Await k) f s =
     (Await (\<lambda>s2. case map_prod (\<lambda>p. onSettle p f) id (k s2) of (g, s3) \<Rightarrow> g s3), s)"

text \<open>Statements without \<open>await\<close>.\<close>

definition now :: "('s, 'a) comp \<Rightarrow> ('s, 'a) task" where
  "now c s = (case c s of (r, s') \<Rightarrow> (Ret r, s'))"

text \<open>\<open>await\<close> of a call to a collaborator outside the repository: the call is made in this
  turn (its answer is the collaborator's answer to the history as it is then), the function
  is suspended and resumes with the answer.\<close>

definition awaitCall :: "('s, 'a) comp \<Rightarrow> ('s, 'a) task" where
  "awaitCall c s = (case c s of (r, s') \<Rightarrow> (Await (\<lambda>s2. (Ret r, s2)), s'))"

text \<open>\<open>await g(...)\<close> for an async function \<open>g\<close> of the repository: \<open>g\<close> takes its first
  turn inside the caller's turn; the caller is suspended in any case and resumes in a turn
  after the one in which \<open>g\<close> has settled.\<close>

definition awaitTask :: "('s, 'a) task \<Rightarrow> ('s, 'a) task" where
  "awaitTask t s =
     (case t s of (p, s') \<Rightarrow> onSettle p (\<lambda>r s2. (Await (\<lambda>s3. (Ret r, s3)), s2)) s')"

text \<open>Sequencing: an error ends the function, a value goes to the statements that follow.\<close>

definition thenT :: "('s, 'a) task \<Rightarrow> ('a \<Rightarrow> ('s, 'b) task) \<Rightarrow> ('s, 'b) task" where
  "thenT t f s =
     (case t s of (p, s') \<Rightarrow>
        onSettle p (\<lambda>r. case r of Inl e \<Rightarrow> now (throw e) | Inr a \<Rightarrow> f a) s')"

text \<open>The function run alone, with no other task between its turns.\<close>

primrec runAlone :: "('s, 'a) proc \<Rightarrow> ('s, 'a) comp" where
  "runAlone (Ret r) s = (r, s)"
| "runAlone (Await k) s = (case map_prod runAlone id (k s) of (g, s') \<Rightarrow> g s')"

definition runTask :: "('s, 'a) task \<Rightarrow> ('s, 'a) comp" where
  "runTask t s = (case t s of (p, s') \<Rightarrow> runAlone p s')"

subsection \<open>The finder and the pipeline, turn by turn\<close>

text \<open>The same functions as above with their \<open>await\<close>s. They work on the program state;
  a call on the store is \<open>onWorld\<close> of the call on the history.\<close>

definition queryCandidateByAsync ::
  "column \<Rightarrow> string \<Rightarrow> supabase \<Rightarrow> string option \<Rightarrow> (call list state, candidate option) task" where
  "queryCandidateByAsync col word sb v =
     (case orNull v of
        None \<Rightarrow> now (return None)
      | Some x \<Rightarrow>
          thenT (awaitCall (onWorld (selectRows sb col x))) (\<lambda>res.
            now (case sr_error res of
                   Some e \<Rightarrow> throw (Error (''Failed duplicate check by '' @ word @ '': ''
                                             @ textOf (e_message e)))
                 | None \<Rightarrow> return (firstRow (sr_data res)))))"

definition findExistingCandidateAsync ::
  "supabase \<Rightarrow> string option \<Rightarrow> string option \<Rightarrow> string option \<Rightarrow>
     (call list state, found option) task" where
  "findExistingCandidateAsync sb email phone resumeUrl =
     thenT (awaitTask (queryCandidateByAsync EmailColumn ''email'' sb email)) (\<lambda>byEmail.
       case byEmail of
         Some c \<Rightarrow> now (return (Some \<lparr>f_candidate = c, f_matchBy = ''email''\<rparr>))
       | None \<Rightarrow>
           thenT (awaitTask (queryCandidateByAsync PhoneColumn ''phone'' sb phone)) (\<lambda>byPhone.
             case byPhone of
               Some c \<Rightarrow> now (return (Some \<lparr>f_candidate = c, f_matchBy = ''phone''\<rparr>))
             | None \<Rightarrow>
                 thenT (awaitTask (queryCandidateByAsync ResumeUrlColumn ''resume URL'' sb resumeUrl))
                   (\<lambda>byResumeUrl.
                      case byResumeUrl of
                        Some c \<Rightarrow> now (return (Some \<lparr>f_candidate = c, f_matchBy = ''resume''\<rparr>))
                      | None \<Rightarrow> now (return None))))"

definition rejectIfFoundAsync :: "found option \<Rightarrow> (call list state, unit) task" where
  "rejectIfFoundAsync existing =
     now (case existing of Some f \<Rightarrow> throw (duplicateSkipped f) | None \<Rightarrow> return ())"

definition afterInsertAsync ::
  "supabase \<Rightarrow> payload \<Rightarrow> string option \<Rightarrow> insert_result \<Rightarrow>
     (call list state, candidate option) task" where
  "afterInsertAsync sb p resumeUrl res =
     (case ir_error res of
        Some insertError \<Rightarrow>
          if isUniqueViolation (Some insertError)
          then thenT (awaitTask (findExistingCandidateAsync sb (p_email p) (p_phone p) resumeUrl))
                 (\<lambda>existingAfterConflict.
                    now (throw (DuplicateCandidateError
                      (''Duplicate candidate skipped (matched by ''
                         @ (case existingAfterConflict of
                              Some f \<Rightarrow> f_matchBy f | None \<Rightarrow> ''constraint'') @ '').'')
                      (case existingAfterConflict of
                         Some f \<Rightarrow> detailsOfFound f | None \<Rightarrow> emptyDetails))))
          else now (throw (Error (''Failed to save candidate in database: ''
                                    @ textOf (e_message insertError))))
      | None \<Rightarrow> now (return (ir_data res)))"

definition insertAndResolveAsync ::
  "supabase \<Rightarrow> payload \<Rightarrow> string option \<Rightarrow> (call list state, candidate option) task" where
  "insertAndResolveAsync sb p resumeUrl =
     thenT (awaitCall (onWorld (insertRow sb p))) (afterInsertAsync sb p resumeUrl)"

definition afterUploadAsync ::
  "supabase \<Rightarrow> payload \<Rightarrow> string option \<Rightarrow> sb_error option \<Rightarrow>
     (call list state, candidate option) task" where
  "afterUploadAsync sb p resumeUrl storageError =
     thenT (now (case storageError of
                   Some e \<Rightarrow>
                     if \<not> isStorageAlreadyExistsError (Some e)
                     then throw (Error (''Failed to upload resume to Supabase Storage: ''
                                          @ textOf (e_message e)))
                     else return ()
                 | None \<Rightarrow> return ()))
       (\<lambda>_. thenT (if isStorageAlreadyExistsError storageError
                    then thenT (awaitTask (findExistingCandidateAsync sb (p_email p) (p_phone p)
                                             resumeUrl))
                           rejectIfFoundAsync
                    else now (return ()))
          (\<lambda>_. insertAndResolveAsync sb p resumeUrl))"

definition ingestAsync ::
  "supabase \<Rightarrow> config \<Rightarrow> payload \<Rightarrow> string \<Rightarrow> string \<Rightarrow> string option \<Rightarrow>
     (call list state, candidate option) task" where
  "ingestAsync sb cfg p storagePath fileBuffer resumeUrl =
     thenT (awaitTask (findExistingCandidateAsync sb (p_email p) (p_phone p) resumeUrl))
       (\<lambda>existingBeforeUpload.
          thenT (rejectIfFoundAsync existingBeforeUpload) (\<lambda>_.
            thenT (awaitCall (onWorld (uploadBlob sb (resumeBucket cfg) storagePath fileBuffer)))
              (afterUploadAsync sb p resumeUrl)))"

text \<open>\<open>withDedupLock\<close>: the check and the marking in the turn of the call, in which \<open>fn\<close>
  also takes its first turn; the \<open>finally\<close> block in the turn that resumes after \<open>fn\<close> has
  settled.\<close>

definition withDedupLockAsync :: "key list \<Rightarrow> ('w state, 'a) task \<Rightarrow> ('w state, 'a) task" where
  "withDedupLockAsync keys fn s =
     (case firstHeld (inFlightDedupKeys s) keys of
        Some k \<Rightarrow> (Ret (Inl (duplicateInFlight k)), s)
      | None \<Rightarrow>
          (case awaitTask fn (s\<lparr>inFlightDedupKeys := addKeys keys (inFlightDedupKeys s)\<rparr>) of
             (p, s1) \<Rightarrow>
               onSettle p
                 (\<lambda>r s2. (Ret r, s2\<lparr>inFlightDedupKeys := deleteKeys keys (inFlightDedupKeys s2)\<rparr>))
                 s1))"

text \<open>\<open>parseResumeBuffer\<close>: \<open>await parser.getText()\<close>, and in the \<open>finally\<close> block
  \<open>await parser.destroy()\<close>, whose failure is caught.\<close>

definition parseResumeBufferAsync :: "deps \<Rightarrow> string \<Rightarrow> ('s, parsed) task" where
  "parseResumeBufferAsync d fileBuffer s =
     (case awaitCall (\<lambda>s1. (parseResumeBuffer d fileBuffer, s1)) s of
        (p, s') \<Rightarrow>
          onSettle p (\<lambda>r. thenT (awaitCall (return ())) (\<lambda>_. now (\<lambda>s2. (r, s2)))) s')"

definition saveCandidateFromFileAsync ::
  "deps \<Rightarrow> supabase \<Rightarrow> config \<Rightarrow> upfile \<Rightarrow> (call list state, candidate option) task" where
  "saveCandidateFromFileAsync d sb cfg f =
     thenT (awaitCall (\<lambda>s. (readFile d (f_path f), s))) (\<lambda>fileBuffer.
       thenT (awaitTask (parseResumeBufferAsync d fileBuffer)) (\<lambda>p.
         (let resumeHash = buildResumeHash d fileBuffer;
              storagePath = buildResumeStoragePath resumeHash None;
              resumeUrl = getResumePublicUrl sb (resumeBucket cfg) storagePath;
              payload = normalizeCandidatePayload p resumeUrl;
              dedupKeys = buildDedupKeys (p_email payload) (p_phone payload) (Some resumeHash)
          in withDedupLockAsync dedupKeys
               (ingestAsync sb cfg payload storagePath fileBuffer resumeUrl))))"


section \<open>Bounded concurrency dispatcher (\<open>processFilesWithConcurrency\<close>)\<close>

text \<open>
  \<open>Math.max(1, Math.min(concurrency, files.length))\<close>. The only caller passes
  \<open>config.bulkUploadConcurrency\<close>, which \<open>getConfig\<close> makes a whole number
  (\<open>Math.floor\<close> of a finite positive number, or 8), so the limit is an \<open>int\<close>.
\<close>

definition workerCount :: "int \<Rightarrow> nat \<Rightarrow> nat" where
  "workerCount concurrency n = nat (max 1 (min concurrency (int n)))"

text \<open>
  The promise of one call of \<open>worker()\<close>: suspended at \<open>await handler(files[i])\<close>, with the
  promise of that call of the handler; resolved (the loop has left through \<open>break\<close>); or
  rejected (the handler has thrown).
\<close>

datatype ('s, 'o) worker = Awaiting nat "('s, 'o) proc" | Done | Failed error

text \<open>
  The variables shared by the workers (\<open>nextIndex\<close>, \<open>results\<close>, a hole of the new array
  being \<open>None\<close>), the workers, the first rejection that \<open>Promise.all\<close> has seen, and the
  state the handlers work on.
\<close>

record ('o, 's) pool =
  nextIndex :: nat
  results :: "'o option list"
  workers :: "('s, 'o) worker list"
  rejection :: "error option"
  handlerState :: 's

text \<open>The head of the loop, one turn: take the index, advance the cursor, leave the loop
  or call the handler, which takes its first turn, and suspend.\<close>

definition enterLoop ::
  "'f list \<Rightarrow> ('f \<Rightarrow> ('s, 'o) task) \<Rightarrow> ('o, 's) pool \<Rightarrow> ('s, 'o) worker \<times> ('o, 's) pool" where
  "enterLoop files handler p =
     (let currentIndex = nextIndex p;
          p1 = p\<lparr>nextIndex := currentIndex + 1\<rparr>
      in if currentIndex \<ge> length files then (Done, p1)
         else (case handler (files ! currentIndex) (handlerState p1) of
                 (q, s) \<Rightarrow> (Awaiting currentIndex q, p1\<lparr>handlerState := s\<rparr>)))"

text \<open>\<open>Array.from({ length: workerCount }, () => worker())\<close>: each call of \<open>worker()\<close>
  runs to its first suspension before the next worker is created.\<close>

definition spawn :: "'f list \<Rightarrow> ('f \<Rightarrow> ('s, 'o) task) \<Rightarrow> ('o, 's) pool \<Rightarrow> ('o, 's) pool" where
  "spawn files handler p =
     (case enterLoop files handler p of (wk, p1) \<Rightarrow> p1\<lparr>workers := workers p1 @ [wk]\<rparr>)"

definition start :: "'f list \<Rightarrow> int \<Rightarrow> ('f \<Rightarrow> ('s, 'o) task) \<Rightarrow> 's \<Rightarrow> ('o, 's) pool" where
  "start files concurrency handler s =
     fold (\<lambda>_. spawn files handler) [0..<workerCount concurrency (length files)]
       \<lparr>nextIndex = 0, results = replicate (length files) None, workers = [],
        rejection = None, handlerState = s\<rparr>"

text \<open>
  One turn of worker \<open>k\<close>. While its handler is suspended, the turn is the handler's next
  turn. Once the handler has settled with a value, the worker resumes: it stores the value
  at its index and runs the head of the loop again. Once the handler has settled with an
  error, the worker's promise is rejected.
\<close>

definition turn ::
  "'f list \<Rightarrow> ('f \<Rightarrow> ('s, 'o) task) \<Rightarrow> nat \<Rightarrow> ('o, 's) pool \<Rightarrow> ('o, 's) pool" where
  "turn files handler k p =
     (case workers p ! k of
        Awaiting i (Await c) \<Rightarrow>
          (case c (handlerState p) of
             (q, s) \<Rightarrow> p\<lparr>workers := (workers p)[k := Awaiting i q], handlerState := s\<rparr>)
      | Awaiting i (Ret (Inr v)) \<Rightarrow>
          (case enterLoop files handler (p\<lparr>results := (results p)[i := Some v]\<rparr>) of
             (wk, p1) \<Rightarrow> p1\<lparr>workers := (workers p1)[k := wk]\<rparr>)
      | Awaiting i (Ret (Inl e)) \<Rightarrow>
          p\<lparr>workers := (workers p)[k := Failed e],
            rejection := (case rejection p of None \<Rightarrow> Some e | Some e0 \<Rightarrow> Some e0)\<rparr>
      | _ \<Rightarrow> p)"

text \<open>The workers that have not finished.\<close>

fun isAwaiting :: "('s, 'o) worker \<Rightarrow> bool" where
  "isAwaiting (Awaiting i q) = True"
| "isAwaiting _ = False"

definition pending :: "('o, 's) pool \<Rightarrow> nat list" where
  "pending p = filter (\<lambda>k. isAwaiting (workers p ! k)) [0..<length (workers p)]"

text \<open>
  One turn of the event loop: some unfinished worker takes a turn. Which one is not
  determined by the program; the number \<open>c\<close> chooses among them.
\<close>

definition tick ::
  "'f list \<Rightarrow> ('f \<Rightarrow> ('s, 'o) task) \<Rightarrow> nat \<Rightarrow> ('o, 's) pool \<Rightarrow> ('o, 's) pool" where
  "tick files handler c p =
     (case pending p of
        [] \<Rightarrow> p
      | k # ks \<Rightarrow> turn files handler ((k # ks) ! (c mod length (k # ks))) p)"

definition runPool ::
  "'f list \<Rightarrow> ('f \<Rightarrow> ('s, 'o) task) \<Rightarrow> nat list \<Rightarrow> ('o, 's) pool \<Rightarrow> ('o, 's) pool" where
  "runPool files handler sched p = fold (tick files handler) sched p"

text \<open>\<open>await Promise.all(...)\<close>: rejected with the first rejection, resolved when no
  worker is pending, \<open>None\<close> while it is still pending.\<close>

definition settled :: "('o, 's) pool \<Rightarrow> (error + 'o option list) option" where
  "settled p =
     (case rejection p of
        Some e \<Rightarrow> Some (Inl e)
      | None \<Rightarrow> if pending p = [] then Some (Inr (results p)) else None)"

text \<open>The function, run under the schedule \<open>sched\<close> of the event loop.\<close>

definition processFilesWithConcurrency ::
  "'f list \<Rightarrow> int \<Rightarrow> ('f \<Rightarrow> ('s, 'o) task) \<Rightarrow> nat list \<Rightarrow> 's \<Rightarrow>
     (error + 'o option list) option \<times> 's" where
  "processFilesWithConcurrency files concurrency handler sched s =
     (let p = runPool files handler sched (start files concurrency handler s)
      in (settled p, handlerState p))"

section \<open>The batch route \<open>POST /upload-resumes\<close>\<close>

text \<open>A per-file outcome: \<open>{ ok: true, fileName, candidate }\<close> or
  \<open>{ ok: false, fileName, error }\<close>.\<close>

datatype outcome = Uploaded string "candidate option" | NotUploaded string string

text \<open>\<open>deleteTempFile\<close>: nothing for a falsy path, else \<open>await\<close> of the deletion, whose
  failure is caught. It touches the file system only.\<close>

definition deleteTempFile :: "string \<Rightarrow> ('s, unit) task" where
  "deleteTempFile filePath = (if filePath = [] then now (return ()) else awaitCall (return ()))"

text \<open>The handler of the route: \<open>try\<close> with the \<open>await\<close> of the pipeline, \<open>catch\<close>, and the
  \<open>finally\<close> block with the \<open>await\<close> of the deletion; then the outcome is returned.\<close>

definition outcomeOf :: "upfile \<Rightarrow> error + candidate option \<Rightarrow> outcome" where
  "outcomeOf f r =
     (case r of
        Inr c \<Rightarrow> Uploaded (f_originalname f) c
      | Inl e \<Rightarrow> NotUploaded (f_originalname f) (message e))"

definition uploadHandler ::
  "(upfile \<Rightarrow> ('s, candidate option) task) \<Rightarrow> upfile \<Rightarrow> ('s, outcome) task" where
  "uploadHandler save f s =
     (case awaitTask (save f) s of
        (p, s') \<Rightarrow>
          onSettle p
            (\<lambda>r. thenT (awaitTask (deleteTempFile (f_path f)))
                    (\<lambda>_. now (return (outcomeOf f r))))
            s')"

record bulk_body =
  b_message :: string
  totalFiles :: nat
  concurrencyUsed :: int
  b_maxFilesPerRequest :: "int option"
  uploadedCount :: nat
  failedCount :: nat
  uploaded :: "(string \<times> candidate option) list"
  failed :: "(string \<times> string) list"

text \<open>What the route does with the request: an error body with its status, the batch
  body with its status, or the error handed to \<open>next\<close>.\<close>

datatype response = ErrorBody nat string | BulkBody nat bulk_body | Next error

fun uploadedOf :: "outcome option \<Rightarrow> (string \<times> candidate option) option" where
  "uploadedOf (Some (Uploaded n c)) = Some (n, c)"
| "uploadedOf _ = None"

fun failedOf :: "outcome option \<Rightarrow> (string \<times> string) option" where
  "failedOf (Some (NotUploaded n e)) = Some (n, e)"
| "failedOf _ = None"

definition bulkBody :: "config \<Rightarrow> nat \<Rightarrow> outcome option list \<Rightarrow> response" where
  "bulkBody cfg n outcomes =
     (let ups = List.map_filter uploadedOf outcomes;
          fails = List.map_filter failedOf outcomes;
          hasFailures = (length fails > 0)
      in BulkBody (if hasFailures then 207 else 201)
           \<lparr>b_message = (if hasFailures then ''Bulk upload finished with partial failures.''
                          else ''Bulk upload finished successfully.''),
            totalFiles = n,
            concurrencyUsed = bulkUploadConcurrency cfg,
            b_maxFilesPerRequest =
              (if maxFilesPerRequest cfg > 0 then Some (maxFilesPerRequest cfg) else None),
            uploadedCount = length ups,
            failedCount = length fails,
            uploaded = ups,
            failed = fails\<rparr>)"

definition uploadResumes ::
  "config \<Rightarrow> (upfile \<Rightarrow> ('w, candidate option) task) \<Rightarrow> upfile list \<Rightarrow> nat list \<Rightarrow> 'w \<Rightarrow>
     response option \<times> 'w" where
  "uploadResumes cfg save files sched w =
     (if length files = 0
      then (Some (ErrorBody 400 ''Missing files. Send one or more PDFs in form-data.''), w)
      else (case processFilesWithConcurrency files (bulkUploadConcurrency cfg)
                   (uploadHandler save) sched w of
              (None, w') \<Rightarrow> (None, w')
            | (Some (Inl e), w') \<Rightarrow> (Some (Next e), w')
            | (Some (Inr outcomes), w') \<Rightarrow> (Some (bulkBody cfg (length files) outcomes), w')))"


section \<open>Vocabulary for the statements about the dispatcher\<close>

text \<open>
  \<open>settlesWithin P n q\<close>: whatever the other tasks do to the state between its turns, the
  call \<open>q\<close> settles after at most \<open>n\<close> more turns, with a result that satisfies \<open>P\<close>. A
  handler always returns an outcome, within \<open>B\<close> turns, when every call of it settles so
  with a value. \<open>evolves q q'\<close>: the call \<open>q\<close> can become \<open>q'\<close> by taking turns; a value is a
  result of the handler for a file when a call of the handler with that file can settle
  with it.
\<close>

fun settlesWithin :: "((error + 'a) \<Rightarrow> bool) \<Rightarrow> nat \<Rightarrow> ('s, 'a) proc \<Rightarrow> bool" where
  "settlesWithin P n (Ret r) = P r"
| "settlesWithin P 0 (Await k) = False"
| "settlesWithin P (Suc n) (Await k) = (\<forall>s. settlesWithin P n (fst (k s)))"

definition taskSettles :: "((error + 'a) \<Rightarrow> bool) \<Rightarrow> nat \<Rightarrow> ('s, 'a) task \<Rightarrow> bool" where
  "taskSettles P n t = (\<forall>s. settlesWithin P n (fst (t s)))"

fun isOutcome :: "error + 'a \<Rightarrow> bool" where
  "isOutcome (Inr v) = True"
| "isOutcome (Inl e) = False"

definition anyResult :: "error + 'a \<Rightarrow> bool" where
  "anyResult r = True"

definition alwaysReturns :: "nat \<Rightarrow> ('f \<Rightarrow> ('s, 'o) task) \<Rightarrow> bool" where
  "alwaysReturns B handler = (\<forall>f. taskSettles isOutcome B (handler f))"

inductive evolves :: "('s, 'a) proc \<Rightarrow> ('s, 'a) proc \<Rightarrow> bool" where
  same: "evolves q q"
| later: "evolves (fst (k s)) q \<Longrightarrow> evolves (Await k) q"

definition resultOf :: "('f \<Rightarrow> ('s, 'o) task) \<Rightarrow> 'f \<Rightarrow> 'o \<Rightarrow> bool" where
  "resultOf handler f v = (\<exists>s. evolves (fst (handler f s)) (Ret (Inr v)))"

text \<open>
  The invariant of the pool, for a handler that always returns an outcome within \<open>B\<close>
  turns: no worker is rejected; a worker awaits a call of the handler for the file at its
  index, its index is claimed and its slot still empty; no index is awaited by two workers;
  every claimed index of a file is awaited or has its slot filled; a filled slot holds a
  result of the handler for its file; and a worker has left the loop only after the cursor
  has passed the last index.
\<close>

definition poolInv :: "'f list \<Rightarrow> ('f \<Rightarrow> ('s, 'o) task) \<Rightarrow> nat \<Rightarrow> ('o, 's) pool \<Rightarrow> bool" where
  "poolInv files handler B p =
     (length (results p) = length files \<and>
      rejection p = None \<and>
      (\<forall>k e. k < length (workers p) \<longrightarrow> workers p ! k \<noteq> Failed e) \<and>
      (\<forall>k i q. k < length (workers p) \<and> workers p ! k = Awaiting i q \<longrightarrow>
         i < length files \<and> i < nextIndex p \<and> results p ! i = None \<and>
         settlesWithin isOutcome B q \<and> (\<exists>s. evolves (fst (handler (files ! i) s)) q)) \<and>
      (\<forall>k k' i q q'. k < length (workers p) \<and> k' < length (workers p) \<and>
         workers p ! k = Awaiting i q \<and> workers p ! k' = Awaiting i q' \<longrightarrow> k = k') \<and>
      (\<forall>i. i < length files \<and> i < nextIndex p \<longrightarrow>
         results p ! i \<noteq> None \<or> (\<exists>k q. k < length (workers p) \<and> workers p ! k = Awaiting i q)) \<and>
      (\<forall>i v. i < length files \<and> results p ! i = Some v \<longrightarrow>
         i < nextIndex p \<and> resultOf handler (files ! i) v) \<and>
      ((\<exists>k. k < length (workers p) \<and> workers p ! k = Done) \<longrightarrow> length files \<le> nextIndex p))"

text \<open>The turns still needed: for a worker, those of its handler and the one in which it
  resumes; for a file not yet claimed, those of a whole call of the handler.\<close>

definition need :: "('s, 'a) proc \<Rightarrow> nat" where
  "need q = (LEAST n. settlesWithin isOutcome n q)"

fun cost :: "('s, 'o) worker \<Rightarrow> nat" where
  "cost (Awaiting i q) = need q + 1"
| "cost _ = 0"

definition potential :: "'f list \<Rightarrow> nat \<Rightarrow> ('o, 's) pool \<Rightarrow> nat" where
  "potential files B p =
     sum_list (map cost (workers p)) +
     (length files - min (nextIndex p) (length files)) * (B + 1)"


section \<open>Vocabulary for the statements about the finder\<close>

text \<open>The history after the query for a value (no query is made for a falsy value),
  whether the store fails that query, and the row the store answers with.\<close>

definition afterQuery :: "call list \<Rightarrow> column \<Rightarrow> string option \<Rightarrow> call list" where
  "afterQuery log col v = (case orNull v of None \<Rightarrow> log | Some x \<Rightarrow> log @ [SelectEq col x])"

definition queryFails :: "supabase \<Rightarrow> call list \<Rightarrow> column \<Rightarrow> string option \<Rightarrow> bool" where
  "queryFails sb log col v =
     (case orNull v of None \<Rightarrow> False | Some x \<Rightarrow> sr_error (selectEq sb log col x) \<noteq> None)"

definition queryHit :: "supabase \<Rightarrow> call list \<Rightarrow> column \<Rightarrow> string option \<Rightarrow> candidate option" where
  "queryHit sb log col v =
     (case orNull v of None \<Rightarrow> None | Some x \<Rightarrow> firstRow (sr_data (selectEq sb log col x)))"

section \<open>Example collaborators\<close>

definition noRows :: select_result where
  "noRows = \<lparr>sr_data = Some [], sr_error = None\<rparr>"

definition rows :: "candidate list \<Rightarrow> select_result" where
  "rows cs = \<lparr>sr_data = Some cs, sr_error = None\<rparr>"

definition annPayload :: payload where
  "annPayload =
     \<lparr>p_name = Some ''ann lee'', p_email = Some ''ann@example.com'',
      p_phone = Some ''+15551234567'', p_skills = [''java''],
      p_resume_url = Some ''https://store/resumes/uploads/9f2c.pdf''\<rparr>"

definition storedAnn :: candidate where
  "storedAnn = \<lparr>c_id = ''c-17'', c_row = annPayload\<rparr>"

definition insertedAnn :: candidate where
  "insertedAnn = \<lparr>c_id = ''c-18'', c_row = annPayload\<rparr>"

definition publicUrlOf :: "string \<Rightarrow> string \<Rightarrow> string option" where
  "publicUrlOf bucket path = Some (''https://store/'' @ bucket @ ''/'' @ path)"

text \<open>A store without rows that accepts every upload and every insert.\<close>

definition sbFresh :: supabase where
  "sbFresh =
     \<lparr>selectEq = (\<lambda>log col v. noRows),
      storageUpload = (\<lambda>log bucket path bytes. None),
      insertCandidate = (\<lambda>log p. \<lparr>ir_data = Some insertedAnn, ir_error = None\<rparr>),
      getPublicUrl = publicUrlOf\<rparr>"

text \<open>A store that knows the phone number only.\<close>

definition sbPhoneKnown :: supabase where
  "sbPhoneKnown =
     sbFresh\<lparr>selectEq := (\<lambda>log col v. if col = PhoneColumn then rows [storedAnn] else noRows)\<rparr>"

definition annResume :: parsed where
  "annResume =
     \<lparr>r_name = Str ''ann lee'', r_email = Str ''ann@example.com'',
      r_phone = Str ''(555) 123-4567'', r_skills = Some [Str ''java'']\<rparr>"

definition depsEx :: deps where
  "depsEx =
     \<lparr>readFile = (\<lambda>path. Inr ''%PDF-1.4 ann lee''),
      parseResumeBuffer = (\<lambda>bytes. Inr annResume),
      sha256Hex = (\<lambda>bytes. ''9f2c'')\<rparr>"

definition cfgEx :: config where
  "cfgEx = \<lparr>maxFilesPerRequest = 500, bulkUploadConcurrency = 8, resumeBucket = ''resumes''\<rparr>"

definition annFile :: upfile where
  "annFile = \<lparr>f_path = ''uploads/1700000000000-42.pdf'', f_originalname = ''ann.pdf''\<rparr>"

definition idle :: "call list state" where
  "idle = \<lparr>inFlightDedupKeys = {}, world = []\<rparr>"

definition uniqueViolation :: sb_error where
  "uniqueViolation =
     \<lparr>e_message = Some ''duplicate key value violates unique constraint'',
      e_code = Some ''23505'', e_statusCode = None\<rparr>"

definition alreadyExists :: sb_error where
  "alreadyExists =
     \<lparr>e_message = Some ''The resource already exists'', e_code = None, e_statusCode = Some 409\<rparr>"

text \<open>A store whose unique index rejects the insert although no query finds a row (the
  index on the email compares lower-cased values, the query compares exactly).\<close>

definition sbConflict :: supabase where
  "sbConflict = sbFresh\<lparr>insertCandidate := (\<lambda>log p. \<lparr>ir_data = None, ir_error = Some uniqueViolation\<rparr>)\<rparr>"

fun isUploadCall :: "call \<Rightarrow> bool" where
  "isUploadCall (StorageUpload bucket path bytes) = True"
| "isUploadCall _ = False"

text \<open>A store in which another writer has stored the same resume and commits its candidate
  while this attempt uploads: the blob store answers that the object already exists, and the
  queries made after the upload find the other writer's row by its resume URL.\<close>

definition sbRaceExists :: supabase where
  "sbRaceExists =
     sbFresh\<lparr>selectEq := (\<lambda>log col v.
                 if col = ResumeUrlColumn \<and> list_ex isUploadCall log then rows [storedAnn]
                 else noRows),
             storageUpload := (\<lambda>log bucket path bytes. Some alreadyExists)\<rparr>"

text \<open>A store without rows whose queries fail from the upload on; and the same store with
  the blob left behind by an earlier attempt, so that the upload is answered with
  \<open>alreadyExists\<close>.\<close>

definition timedOut :: sb_error where
  "timedOut = \<lparr>e_message = Some ''upstream request timeout'', e_code = None, e_statusCode = None\<rparr>"

definition sbOutage :: supabase where
  "sbOutage =
     sbFresh\<lparr>selectEq := (\<lambda>log col v.
                 if list_ex isUploadCall log then \<lparr>sr_data = None, sr_error = Some timedOut\<rparr>
                 else noRows)\<rparr>"

definition sbOutageExists :: supabase where
  "sbOutageExists = sbOutage\<lparr>storageUpload := (\<lambda>log bucket path bytes. Some alreadyExists)\<rparr>"

text \<open>The calls the pipeline makes for \<open>annFile\<close>: the three queries of one run of the
  finder, and the history up to the upload.\<close>

definition annQueries :: "call list" where
  "annQueries =
     [SelectEq EmailColumn ''ann@example.com'',
      SelectEq PhoneColumn ''+15551234567'',
      SelectEq ResumeUrlColumn ''https://store/resumes/uploads/9f2c.pdf'']"

definition annUploaded :: "call list" where
  "annUploaded =
     annQueries @ [StorageUpload ''resumes'' ''uploads/9f2c.pdf'' ''%PDF-1.4 ann lee'']"

fun isInsertCall :: "call \<Rightarrow> bool" where
  "isInsertCall (InsertCandidate p) = True"
| "isInsertCall _ = False"

text \<open>A store in which another writer commits the same email between this attempt's first
  check and its insert: the insert is rejected, and the queries made after it find the
  winner by email.\<close>

definition sbLostRace :: supabase where
  "sbLostRace =
     sbConflict\<lparr>selectEq := (\<lambda>log col v.
                   if col = EmailColumn \<and> list_ex isInsertCall log then rows [storedAnn]
                   else noRows)\<rparr>"

definition bucketMissing :: sb_error where
  "bucketMissing = \<lparr>e_message = Some ''Bucket not found'', e_code = None, e_statusCode = Some 404\<rparr>"

text \<open>A store whose insert fails for another reason than a unique index.\<close>

definition permissionDenied :: sb_error where
  "permissionDenied =
     \<lparr>e_message = Some ''permission denied for table candidates'', e_code = Some ''42501'',
      e_statusCode = None\<rparr>"

definition sbDenied :: supabase where
  "sbDenied = sbFresh\<lparr>insertCandidate := (\<lambda>log p. \<lparr>ir_data = None, ir_error = Some permissionDenied\<rparr>)\<rparr>"

text \<open>Collaborators for a batch of two files, the first of which cannot be read.\<close>

definition missingFile :: upfile where
  "missingFile = \<lparr>f_path = ''uploads/1700000000000-7.pdf'', f_originalname = ''bob.pdf''\<rparr>"

definition depsFlaky :: deps where
  "depsFlaky =
     depsEx\<lparr>readFile := (\<lambda>path. if path = f_path missingFile
                              then Inl (Error ''ENOENT: no such file or directory'')
                              else Inr ''%PDF-1.4 ann lee'')\<rparr>"

definition cfgSerial :: config where
  "cfgSerial = cfgEx\<lparr>bulkUploadConcurrency := 1\<rparr>"

definition afterAnn :: "call list state" where
  "afterAnn = \<lparr>inFlightDedupKeys = {}, world = annUploaded @ [InsertCandidate annPayload]\<rparr>"

text \<open>A store that keeps the candidate it has inserted: from the first insert on, the queries
  by email find the row and a further insert violates the unique index on the email.\<close>

definition sbLive :: supabase where
  "sbLive =
     sbFresh\<lparr>selectEq := (\<lambda>log col v.
                 if col = EmailColumn \<and> list_ex isInsertCall log then rows [insertedAnn]
                 else noRows),
             insertCandidate := (\<lambda>log p.
                 if list_ex isInsertCall log then \<lparr>ir_data = None, ir_error = Some uniqueViolation\<rparr>
                 else \<lparr>ir_data = Some insertedAnn, ir_error = None\<rparr>)\<rparr>"

text \<open>The schedule in which the workers take their turns one after the other, round after
  round, and the schedule in which the first unfinished worker takes every turn.\<close>

definition roundRobin :: "nat \<Rightarrow> nat list" where
  "roundRobin n = concat (replicate n [0, 1])"

definition firstFirst :: "nat \<Rightarrow> nat list" where
  "firstFirst n = replicate n 0"

text \<open>A handler whose result depends on the file only: the name of the file, after one
  \<open>await\<close>.\<close>

definition nameOf :: "upfile \<Rightarrow> ('s, string) task" where
  "nameOf f = awaitCall (return (f_originalname f))"


section \<open>Properties of the keys and of the lock\<close>

lemma addKeys_eq: "addKeys keys held = held \<union> set keys"
  unfolding addKeys_def by (induction keys arbitrary: held) auto

lemma deleteKeys_eq: "deleteKeys keys held = held - set keys"
  unfolding deleteKeys_def by (induction keys arbitrary: held) auto

lemma firstHeld_None: "firstHeld held keys = None \<longleftrightarrow> set keys \<inter> held = {}"
  by (induction keys) auto

lemma firstHeld_Some: "firstHeld held keys = Some k \<Longrightarrow> k \<in> set keys \<and> k \<in> held"
  by (induction keys) (auto split: if_splits)

lemma firstHeld_collision: "k \<in> set keys \<Longrightarrow> k \<in> held \<Longrightarrow> \<exists>c. firstHeld held keys = Some c"
  using firstHeld_None [of held keys] by (cases "firstHeld held keys") auto

lemma set_buildDedupKeys:
  "set (buildDedupKeys e p h) =
     {k. keyFor ''email:'' e = Some k} \<union> {k. keyFor ''phone:'' p = Some k} \<union> {k. keyFor ''hash:'' h = Some k}"
  by (auto simp: buildDedupKeys_def List.map_filter_def)

lemma matchBy_keyFor:
  "keyFor ''email:'' v = Some k \<Longrightarrow> matchByOfKey k = ''email''"
  "keyFor ''phone:'' v = Some k \<Longrightarrow> matchByOfKey k = ''phone''"
  "keyFor ''hash:'' v = Some k \<Longrightarrow> matchByOfKey k = ''hash''"
  by (cases v; auto simp: matchByOfKey_def split: if_splits)+

lemma matchBy_buildDedupKeys:
  "k \<in> set (buildDedupKeys e p h) \<Longrightarrow> matchByOfKey k \<in> {''email'', ''phone'', ''hash''}"
  by (auto simp: set_buildDedupKeys matchBy_keyFor)


subsection \<open>The invariant holds in every reachable state\<close>

lemma length_setPhase [simp]: "length (setPhase i p as) = length as"
  by (simp add: setPhase_def)

lemma nth_setPhase:
  "j < length as \<Longrightarrow> setPhase i p as ! j = (if j = i then (as ! i)\<lparr>a_phase := p\<rparr> else as ! j)"
  by (simp add: setPhase_def)

lemma lockInv_initial: "lockInv (initialSystem kss)"
  by (auto simp: lockInv_def initialSystem_def inCS_def)

lemma lockInv_callStep:
  assumes "lockInv sys"
  shows "lockInv (callStep i sys)"
proof (cases "i < length (sys_attempts sys) \<and> a_phase (sys_attempts sys ! i) = NotCalled")
  case False
  then have "callStep i sys = sys" by (auto simp: callStep_def)
  then show ?thesis using assms by simp
next
  case True
  show ?thesis
  proof (cases "firstHeld (sys_held sys) (a_keys (sys_attempts sys ! i))")
    case (Some k)
    then have eq: "callStep i sys =
        sys\<lparr>sys_attempts := setPhase i (Rejected (duplicateInFlight k)) (sys_attempts sys)\<rparr>"
      using True by (simp add: callStep_def)
    have cs: "inCS (callStep i sys) j = inCS sys j" for j
      using True by (auto simp: eq inCS_def nth_setPhase split: if_splits)
    have ks: "inCS sys j \<Longrightarrow> keysOf (callStep i sys) j = keysOf sys j" for j
      by (auto simp: eq inCS_def keysOf_def nth_setPhase)
    have hd: "sys_held (callStep i sys) = sys_held sys"
      by (simp add: eq)
    show ?thesis
      using assms unfolding lockInv_def cs hd by (metis ks)
  next
    case None
    then have eq: "callStep i sys =
        sys\<lparr>sys_held := sys_held sys \<union> set (a_keys (sys_attempts sys ! i)),
            sys_attempts := setPhase i InCriticalSection (sys_attempts sys)\<rparr>"
      using True by (simp add: callStep_def addKeys_eq)
    have free: "set (a_keys (sys_attempts sys ! i)) \<inter> sys_held sys = {}"
      using None by (simp add: firstHeld_None)
    have cs: "inCS (callStep i sys) j = (j = i \<or> inCS sys j)" for j
      using True by (auto simp: eq inCS_def nth_setPhase split: if_splits)
    have ks: "j < length (sys_attempts sys) \<Longrightarrow> keysOf (callStep i sys) j = keysOf sys j" for j
      by (auto simp: eq keysOf_def nth_setPhase)
    have lt: "inCS sys j \<Longrightarrow> j < length (sys_attempts sys)" for j
      by (simp add: inCS_def)
    have hd: "sys_held (callStep i sys) = sys_held sys \<union> keysOf sys i"
      by (simp add: eq keysOf_def)
    have disj: "inCS sys j \<Longrightarrow> keysOf sys i \<inter> keysOf sys j = {}" for j
      using assms free unfolding lockInv_def keysOf_def by blast
    have il: "i < length (sys_attempts sys)" using True by simp
    have a: "\<forall>k. k \<in> sys_held (callStep i sys) \<longleftrightarrow>
               (\<exists>j. inCS (callStep i sys) j \<and> k \<in> keysOf (callStep i sys) j)"
      using assms il unfolding lockInv_def cs hd by (metis Un_iff ks lt)
    have b: "\<forall>j l. inCS (callStep i sys) j \<and> inCS (callStep i sys) l \<and> j \<noteq> l \<longrightarrow>
               keysOf (callStep i sys) j \<inter> keysOf (callStep i sys) l = {}"
      using assms il disj unfolding lockInv_def cs by (metis Int_commute ks lt)
    show ?thesis unfolding lockInv_def using a b by blast
  qed
qed

lemma lockInv_settleStep:
  assumes "lockInv sys"
  shows "lockInv (settleStep i sys)"
proof (cases "inCS sys i")
  case False
  then have "settleStep i sys = sys" by (auto simp: settleStep_def inCS_def)
  then show ?thesis using assms by simp
next
  case True
  then have eq: "settleStep i sys =
      sys\<lparr>sys_held := sys_held sys - keysOf sys i,
          sys_attempts := setPhase i Returned (sys_attempts sys)\<rparr>"
    by (simp add: settleStep_def inCS_def deleteKeys_eq keysOf_def)
  have cs: "inCS (settleStep i sys) j = (j \<noteq> i \<and> inCS sys j)" for j
    using True by (auto simp: eq inCS_def nth_setPhase split: if_splits)
  have ks: "inCS sys j \<Longrightarrow> keysOf (settleStep i sys) j = keysOf sys j" for j
    by (auto simp: eq keysOf_def inCS_def nth_setPhase)
  have hd: "sys_held (settleStep i sys) = sys_held sys - keysOf sys i"
    by (simp add: eq)
  have disj: "inCS sys j \<Longrightarrow> j \<noteq> i \<Longrightarrow> keysOf sys i \<inter> keysOf sys j = {}" for j
    using assms True unfolding lockInv_def by blast
  have a: "\<forall>k. k \<in> sys_held (settleStep i sys) \<longleftrightarrow>
             (\<exists>j. inCS (settleStep i sys) j \<and> k \<in> keysOf (settleStep i sys) j)"
  proof (intro allI iffI)
    fix k assume "k \<in> sys_held (settleStep i sys)"
    then have "k \<in> sys_held sys" "k \<notin> keysOf sys i" by (auto simp: hd)
    then obtain j where "inCS sys j" "k \<in> keysOf sys j" "j \<noteq> i"
      using assms unfolding lockInv_def by blast
    then show "\<exists>j. inCS (settleStep i sys) j \<and> k \<in> keysOf (settleStep i sys) j"
      using cs ks by blast
  next
    fix k assume "\<exists>j. inCS (settleStep i sys) j \<and> k \<in> keysOf (settleStep i sys) j"
    then obtain j where j: "j \<noteq> i" "inCS sys j" "k \<in> keysOf sys j"
      using cs ks by blast
    then have "k \<in> sys_held sys" using assms unfolding lockInv_def by blast
    moreover have "k \<notin> keysOf sys i" using disj [of j] j by blast
    ultimately show "k \<in> sys_held (settleStep i sys)" by (simp add: hd)
  qed
  have b: "\<forall>j l. inCS (settleStep i sys) j \<and> inCS (settleStep i sys) l \<and> j \<noteq> l \<longrightarrow>
             keysOf (settleStep i sys) j \<inter> keysOf (settleStep i sys) l = {}"
    using assms unfolding lockInv_def cs by (metis ks)
  show ?thesis unfolding lockInv_def using a b by blast
qed

lemma lockInv_step: "lockInv sys \<Longrightarrow> lockInv (step ev sys)"
  by (cases ev) (simp_all add: lockInv_callStep lockInv_settleStep)

lemma lockInv_runEvents: "lockInv sys \<Longrightarrow> lockInv (runEvents evs sys)"
  unfolding runEvents_def by (induction evs arbitrary: sys) (simp_all add: lockInv_step)

lemma lockInv_reachable: "lockInv (runEvents evs (initialSystem kss))"
  by (simp add: lockInv_runEvents lockInv_initial)


lemma keys_callStep: "map a_keys (sys_attempts (callStep i sys)) = map a_keys (sys_attempts sys)"
  by (auto simp: callStep_def setPhase_def map_update list_update_same_conv split: option.splits)

lemma keys_settleStep: "map a_keys (sys_attempts (settleStep i sys)) = map a_keys (sys_attempts sys)"
  by (auto simp: settleStep_def setPhase_def map_update list_update_same_conv)

lemma keys_runEvents: "map a_keys (sys_attempts (runEvents evs sys)) = map a_keys (sys_attempts sys)"
proof (induction evs arbitrary: sys)
  case Nil
  show ?case by (simp add: runEvents_def)
next
  case (Cons ev evs)
  have "map a_keys (sys_attempts (step ev sys)) = map a_keys (sys_attempts sys)"
    by (cases ev) (simp_all add: keys_callStep keys_settleStep)
  with Cons [of "step ev sys"] show ?case by (simp add: runEvents_def)
qed

lemma keys_reachable:
  "map a_keys (sys_attempts (runEvents evs (initialSystem kss))) = kss"
  by (simp add: keys_runEvents) (simp add: initialSystem_def comp_def)

lemma keysOf_reachable:
  assumes "i < length kss"
  shows "keysOf (runEvents evs (initialSystem kss)) i = set (kss ! i)"
proof -
  let ?sys = "runEvents evs (initialSystem kss)"
  have "length (sys_attempts ?sys) = length kss"
    using keys_reachable [of evs kss] by (metis length_map)
  then have "map a_keys (sys_attempts ?sys) ! i = a_keys (sys_attempts ?sys ! i)"
    using assms by simp
  then show ?thesis by (simp add: keysOf_def keys_reachable)
qed

lemma inCS_bound: "inCS (runEvents evs (initialSystem kss)) i \<Longrightarrow> i < length kss"
  using keys_reachable [of evs kss] by (metis inCS_def length_map)


section \<open>Properties of the finder and of the pipeline\<close>

lemma queryCandidateBy_eq:
  "queryCandidateBy col word sb v log =
     (if queryFails sb log col v
      then (Inl (Error (''Failed duplicate check by '' @ word @ '': '' @
                  textOf (e_message (the (sr_error (selectEq sb log col (the (orNull v)))))))),
            afterQuery log col v)
      else (Inr (queryHit sb log col v), afterQuery log col v))"
  by (auto simp: queryCandidateBy_def queryFails_def queryHit_def afterQuery_def bind_def
      return_def throw_def selectRows_def split: option.splits)

lemma afterQuery_new:
  "\<exists>qs. afterQuery log col v = log @ qs \<and> (\<forall>q \<in> set qs. \<exists>x. q = SelectEq col x \<and> orNull v = Some x)"
  by (cases "orNull v") (simp_all add: afterQuery_def)

lemma finder_history:
  "snd (findExistingCandidate sb email phone resumeUrl log) \<in>
     {afterQuery log EmailColumn email,
      afterQuery (afterQuery log EmailColumn email) PhoneColumn phone,
      afterQuery (afterQuery (afterQuery log EmailColumn email) PhoneColumn phone)
        ResumeUrlColumn resumeUrl}"
  unfolding findExistingCandidate_def queryCandidateByEmail_def
    queryCandidateByPhone_def queryCandidateByResumeUrl_def
  by (auto simp: bind_def return_def queryCandidateBy_eq split: option.splits)

lemma finder_queries:
  assumes "SelectEq col x \<in> set (drop (length log) (snd (findExistingCandidate sb email phone resumeUrl log)))"
  shows "(col = EmailColumn \<and> orNull email = Some x) \<or>
         (col = PhoneColumn \<and> orNull phone = Some x) \<or>
         (col = ResumeUrlColumn \<and> orNull resumeUrl = Some x)"
proof -
  obtain q1 where q1: "afterQuery log EmailColumn email = log @ q1"
    "\<forall>q \<in> set q1. \<exists>x. q = SelectEq EmailColumn x \<and> orNull email = Some x"
    using afterQuery_new by blast
  obtain q2 where q2: "afterQuery (log @ q1) PhoneColumn phone = (log @ q1) @ q2"
    "\<forall>q \<in> set q2. \<exists>x. q = SelectEq PhoneColumn x \<and> orNull phone = Some x"
    using afterQuery_new by blast
  obtain q3 where q3: "afterQuery ((log @ q1) @ q2) ResumeUrlColumn resumeUrl = ((log @ q1) @ q2) @ q3"
    "\<forall>q \<in> set q3. \<exists>x. q = SelectEq ResumeUrlColumn x \<and> orNull resumeUrl = Some x"
    using afterQuery_new by blast
  have "snd (findExistingCandidate sb email phone resumeUrl log) \<in>
      {log @ q1, (log @ q1) @ q2, ((log @ q1) @ q2) @ q3}"
    using finder_history [of sb email phone resumeUrl log] unfolding q1(1) q2(1) q3(1) .
  then have "SelectEq col x \<in> set q1 \<union> set q2 \<union> set q3"
    using assms by auto
  then show ?thesis using q1(2) q2(2) q3(2) by blast
qed

subsection \<open>Runs of the pipeline on the example stores\<close>

lemma run_sbConflict:
  "saveCandidateFromFile depsEx sbConflict cfgEx annFile idle =
     (Inl (DuplicateCandidateError ''Duplicate candidate skipped (matched by constraint).''
             \<lparr>d_candidate = None, d_matchBy = None\<rparr>),
      \<lparr>inFlightDedupKeys = {}, world = annUploaded @ [InsertCandidate annPayload] @ annQueries\<rparr>)"
  by code_simp

lemma run_sbRaceExists:
  "saveCandidateFromFile depsEx sbRaceExists cfgEx annFile idle =
     (Inl (DuplicateCandidateError ''Duplicate candidate skipped (matched by resume).''
             \<lparr>d_candidate = Some storedAnn, d_matchBy = Some ''resume''\<rparr>),
      \<lparr>inFlightDedupKeys = {}, world = annUploaded @ annQueries\<rparr>)"
  by code_simp

lemma run_sbOutageExists:
  "saveCandidateFromFile depsEx sbOutageExists cfgEx annFile idle =
     (Inl (Error ''Failed duplicate check by email: upstream request timeout''),
      \<lparr>inFlightDedupKeys = {}, world = annUploaded @ [SelectEq EmailColumn ''ann@example.com'']\<rparr>)"
  by code_simp

lemma run_sbOutage:
  "saveCandidateFromFile depsEx sbOutage cfgEx annFile idle =
     (Inr (Some insertedAnn),
      \<lparr>inFlightDedupKeys = {}, world = annUploaded @ [InsertCandidate annPayload]\<rparr>)"
  by code_simp


section \<open>The asynchronous functions run alone are the sequential ones\<close>

lemma onSettle_Await:
  "onSettle (Await k) f s = (Await (\<lambda>s2. case k s2 of (p, s3) \<Rightarrow> onSettle p f s3), s)"
  by (simp add: case_prod_unfold)

lemma runAlone_Await: "runAlone (Await k) s = (case k s of (p, s') \<Rightarrow> runAlone p s')"
  by (simp add: case_prod_unfold)

lemma runAlone_onSettle:
  "(case onSettle p f s of (q, s') \<Rightarrow> runAlone q s') =
   (case runAlone p s of (r, s') \<Rightarrow> runTask (f r) s')"
proof (induction p arbitrary: s)
  case (Ret r)
  show ?case by (simp add: runTask_def)
next
  case (Await k)
  obtain p s1 where k: "k s = (p, s1)" by (cases "k s")
  have "p \<in> Basic_BNFs.fsts (k s)" by (simp add: k)
  then have ih: "(case onSettle p f s1 of (q, s') \<Rightarrow> runAlone q s') =
                 (case runAlone p s1 of (r, s') \<Rightarrow> runTask (f r) s')"
    using Await.IH [of "k s" p s1] by blast
  show ?case using ih by (simp add: case_prod_unfold k)
qed

lemma runTask_now [simp]: "runTask (now c) = c"
  by (rule ext) (simp add: runTask_def now_def split: prod.splits)

lemma runTask_awaitCall [simp]: "runTask (awaitCall c) = c"
  by (rule ext) (simp add: runTask_def awaitCall_def split: prod.splits)

lemma runTask_awaitTask [simp]: "runTask (awaitTask t) = runTask t"
proof (rule ext)
  fix s
  obtain p s1 where t: "t s = (p, s1)" by (cases "t s")
  have "runTask (awaitTask t) s = (case onSettle p (\<lambda>r s2. (Await (\<lambda>s3. (Ret r, s3)), s2)) s1 of (q, s') \<Rightarrow> runAlone q s')"
    by (simp add: runTask_def awaitTask_def t)
  also have "\<dots> = (case runAlone p s1 of (r, s') \<Rightarrow> runTask (\<lambda>s2. (Await (\<lambda>s3. (Ret r, s3)), s2)) s')"
    by (rule runAlone_onSettle)
  also have "\<dots> = runAlone p s1"
    by (simp add: runTask_def split: prod.splits)
  finally show "runTask (awaitTask t) s = runTask t s" by (simp add: runTask_def t)
qed

lemma runTask_thenT [simp]: "runTask (thenT t f) = bind (runTask t) (\<lambda>a. runTask (f a))"
proof (rule ext)
  fix s
  obtain p s1 where t: "t s = (p, s1)" by (cases "t s")
  have "runTask (thenT t f) s =
      (case onSettle p (\<lambda>r. case r of Inl e \<Rightarrow> now (throw e) | Inr a \<Rightarrow> f a) s1 of (q, s') \<Rightarrow> runAlone q s')"
    by (simp add: runTask_def thenT_def t)
  also have "\<dots> = (case runAlone p s1 of (r, s') \<Rightarrow>
       runTask (case r of Inl e \<Rightarrow> now (throw e) | Inr a \<Rightarrow> f a) s')"
    by (rule runAlone_onSettle)
  also have "\<dots> = bind (runTask t) (\<lambda>a. runTask (f a)) s"
    by (auto simp: bind_def runTask_def t throw_def now_def split: prod.splits sum.splits)
  finally show "runTask (thenT t f) s = bind (runTask t) (\<lambda>a. runTask (f a)) s" .
qed


lemma onWorld_return [simp]: "onWorld (return a) = return a"
  by (rule ext) (simp add: onWorld_def return_def)

lemma onWorld_throw [simp]: "onWorld (throw e) = throw e"
  by (rule ext) (simp add: onWorld_def throw_def)

lemma onWorld_bind [simp]: "onWorld (bind m f) = bind (onWorld m) (\<lambda>a. onWorld (f a))"
  by (rule ext) (simp add: onWorld_def bind_def split: prod.splits sum.splits)

lemmas push_run =
  option.case_distrib [of runTask] option.case_distrib [of onWorld]
  if_distrib [of runTask] if_distrib [of onWorld]

lemma runTask_query:
  "runTask (queryCandidateByAsync col word sb v) = onWorld (queryCandidateBy col word sb v)"
  by (simp add: queryCandidateByAsync_def queryCandidateBy_def push_run
      cong: option.case_cong if_cong)

lemma runTask_finder:
  "runTask (findExistingCandidateAsync sb email phone resumeUrl) =
   onWorld (findExistingCandidate sb email phone resumeUrl)"
  unfolding findExistingCandidateAsync_def findExistingCandidate_def
    queryCandidateByEmail_def queryCandidateByPhone_def queryCandidateByResumeUrl_def
  by (simp add: runTask_query push_run
      cong: option.case_cong if_cong)

lemma runTask_afterInsert:
  "runTask (afterInsertAsync sb p resumeUrl res) = onWorld (afterInsert sb p resumeUrl res)"
  by (simp add: afterInsertAsync_def afterInsert_def runTask_finder push_run
      cong: option.case_cong if_cong)

lemma runTask_insertAndResolve:
  "runTask (insertAndResolveAsync sb p resumeUrl) = onWorld (insertAndResolve sb p resumeUrl)"
  by (simp add: insertAndResolveAsync_def insertAndResolve_def runTask_afterInsert)

lemma runTask_rejectIfFound:
  "runTask (rejectIfFoundAsync x) = onWorld (rejectIfFound x)"
  by (simp add: rejectIfFoundAsync_def rejectIfFound_def push_run
      cong: option.case_cong if_cong)

lemma runTask_afterUpload:
  "runTask (afterUploadAsync sb p resumeUrl e) = onWorld (afterUpload sb p resumeUrl e)"
  by (simp add: afterUploadAsync_def afterUpload_def runTask_finder runTask_insertAndResolve
      runTask_rejectIfFound push_run
      cong: option.case_cong if_cong)

lemma runTask_ingest:
  "runTask (ingestAsync sb cfg p path bytes resumeUrl) = onWorld (ingest sb cfg p path bytes resumeUrl)"
  by (simp add: ingestAsync_def ingest_def runTask_finder runTask_afterUpload
      runTask_rejectIfFound)

lemma runTask_withDedupLock:
  "runTask (withDedupLockAsync keys fn) = withDedupLock keys (runTask fn)"
proof (rule ext)
  fix s
  show "runTask (withDedupLockAsync keys fn) s = withDedupLock keys (runTask fn) s"
  proof (cases "firstHeld (inFlightDedupKeys s) keys")
    case (Some k)
    then show ?thesis by (simp add: runTask_def withDedupLockAsync_def withDedupLock_def)
  next
    case None
    let ?s1 = "s\<lparr>inFlightDedupKeys := addKeys keys (inFlightDedupKeys s)\<rparr>"
    let ?fin = "\<lambda>r s2. (Ret r, s2\<lparr>inFlightDedupKeys := deleteKeys keys (inFlightDedupKeys s2)\<rparr>)"
    obtain p s2 where a: "awaitTask fn ?s1 = (p, s2)" by (cases "awaitTask fn ?s1")
    have "runTask (withDedupLockAsync keys fn) s = (case onSettle p ?fin s2 of (q, s') \<Rightarrow> runAlone q s')"
      using None by (simp add: runTask_def withDedupLockAsync_def a)
    also have "\<dots> = (case runAlone p s2 of (r, s') \<Rightarrow> runTask (?fin r) s')"
      by (rule runAlone_onSettle)
    also have "runAlone p s2 = runTask fn ?s1"
      using a runTask_awaitTask [of fn] by (metis (mono_tags, lifting) case_prod_conv runTask_def)
    finally show ?thesis
      using None by (simp add: withDedupLock_def runTask_def Let_def split: prod.splits)
  qed
qed

lemma runTask_parse:
  "runTask (parseResumeBufferAsync d buf) = (\<lambda>s. (parseResumeBuffer d buf, s))"
proof (rule ext)
  fix s :: 's
  let ?c = "\<lambda>s1 :: 's. (parseResumeBuffer d buf, s1)"
  let ?f = "\<lambda>r. thenT (awaitCall (return ())) (\<lambda>_. now (\<lambda>s2 :: 's. (r, s2)))"
  obtain p s1 where a: "awaitCall ?c s = (p, s1)" by (cases "awaitCall ?c s")
  have "runTask (parseResumeBufferAsync d buf) s = (case onSettle p ?f s1 of (q, s') \<Rightarrow> runAlone q s')"
    by (simp add: runTask_def parseResumeBufferAsync_def a)
  also have "\<dots> = (case runAlone p s1 of (r, s') \<Rightarrow> runTask (?f r) s')"
    by (rule runAlone_onSettle)
  also have "runAlone p s1 = ?c s"
    using a by (auto simp: awaitCall_def)
  finally show "runTask (parseResumeBufferAsync d buf) s = (parseResumeBuffer d buf, s)"
    by (simp add: bind_def return_def)
qed

lemma runTask_saveCandidateFromFile:
  "runTask (saveCandidateFromFileAsync d sb cfg f) = saveCandidateFromFile d sb cfg f"
proof (rule ext)
  fix s
  show "runTask (saveCandidateFromFileAsync d sb cfg f) s = saveCandidateFromFile d sb cfg f s"
    by (simp add: saveCandidateFromFileAsync_def saveCandidateFromFile_def runTask_parse
        runTask_withDedupLock runTask_ingest bind_def throw_def Let_def
        split: sum.splits)
qed


section \<open>The asynchronous functions settle within a bounded number of turns\<close>

lemma settlesWithin_mono:
  "settlesWithin P n q \<Longrightarrow> n \<le> m \<Longrightarrow> settlesWithin P m q"
proof (induction n arbitrary: m q)
  case 0
  then show ?case by (cases q) simp_all
next
  case (Suc n)
  show ?case
  proof (cases q)
    case (Ret r)
    with Suc.prems show ?thesis by simp
  next
    case (Await k)
    from Suc.prems(2) obtain m' where m: "m = Suc m'" "n \<le> m'" by (cases m) simp_all
    from Suc.prems(1) Await have "\<forall>s. settlesWithin P n (fst (k s))" by simp
    then have "\<forall>s. settlesWithin P m' (fst (k s))" using Suc.IH m(2) by blast
    with Await m(1) show ?thesis by simp
  qed
qed

lemma settlesWithin_weaken:
  "settlesWithin P n q \<Longrightarrow> (\<And>r. P r \<Longrightarrow> Q r) \<Longrightarrow> settlesWithin Q n q"
proof (induction n arbitrary: q)
  case 0
  then show ?case by (cases q) simp_all
next
  case (Suc n)
  then show ?case by (cases q) auto
qed

lemma settles_onSettle:
  assumes "settlesWithin Q n p" and "\<And>r s. Q r \<Longrightarrow> settlesWithin P m (fst (f r s))"
  shows "settlesWithin P (n + m) (fst (onSettle p f s))"
  using assms(1)
proof (induction n arbitrary: p s)
  case 0
  then show ?case
  proof (cases p)
    case (Ret r)
    with 0 have "Q r" by simp
    then show ?thesis using assms(2) [of r s] Ret by simp
  qed simp
next
  case (Suc n)
  show ?case
  proof (cases p)
    case (Ret r)
    with Suc.prems have "Q r" by simp
    then have "settlesWithin P m (fst (f r s))" by (rule assms(2))
    then show ?thesis using Ret settlesWithin_mono [of P m _ "Suc n + m"] by simp
  next
    case (Await k)
    with Suc.prems have k: "\<And>s2. settlesWithin Q n (fst (k s2))" by simp
    have "settlesWithin P (n + m) (fst (case k s2 of (p', s3) \<Rightarrow> onSettle p' f s3))" for s2
      using Suc.IH [OF k, of s2 "snd (k s2)"] by (simp add: case_prod_unfold)
    then show ?thesis by (simp add: Await onSettle_Await del: onSettle.simps)
  qed
qed

lemma taskSettles_mono: "taskSettles P n t \<Longrightarrow> n \<le> m \<Longrightarrow> taskSettles P m t"
  unfolding taskSettles_def using settlesWithin_mono by blast

lemma taskSettles_now: "(\<And>s. P (fst (c s))) \<Longrightarrow> taskSettles P n (now c)"
  by (simp add: taskSettles_def now_def case_prod_unfold)

lemma taskSettles_awaitCall: "(\<And>s. P (fst (c s))) \<Longrightarrow> taskSettles P (Suc n) (awaitCall c)"
  by (simp add: taskSettles_def awaitCall_def case_prod_unfold)

lemma taskSettles_awaitTask:
  assumes "taskSettles P n t"
  shows "taskSettles P (Suc n) (awaitTask t)"
proof -
  have "settlesWithin P (n + 1) (fst (onSettle (fst (t s)) (\<lambda>r s2. (Await (\<lambda>s3. (Ret r, s3)), s2)) (snd (t s))))" for s
    using assms unfolding taskSettles_def
    by (intro settles_onSettle [where Q = P]) simp_all
  then show ?thesis by (simp add: taskSettles_def awaitTask_def case_prod_unfold)
qed

lemma taskSettles_thenT:
  assumes "taskSettles anyResult n t" and "\<And>a. taskSettles anyResult m (f a)"
  shows "taskSettles anyResult (n + m) (thenT t f)"
proof -
  have inner: "settlesWithin anyResult m (fst ((case r of Inl e \<Rightarrow> now (throw e) | Inr a \<Rightarrow> f a) s'))"
    for r s'
  proof (cases r)
    case (Inl e)
    then show ?thesis
      using settlesWithin_mono [of anyResult 0 "fst (now (throw e) s')" m]
      by (simp add: now_def anyResult_def case_prod_unfold)
  next
    case (Inr a)
    then show ?thesis using assms(2) [of a] by (simp add: taskSettles_def)
  qed
  have "settlesWithin anyResult (n + m)
          (fst (onSettle (fst (t s)) (\<lambda>r. case r of Inl e \<Rightarrow> now (throw e) | Inr a \<Rightarrow> f a) (snd (t s))))" for s
    using assms(1) inner unfolding taskSettles_def
    by (intro settles_onSettle [where Q = anyResult]) simp_all
  then show ?thesis by (simp add: taskSettles_def thenT_def case_prod_unfold)
qed

lemma thenT_within:
  assumes "taskSettles anyResult n t" and "\<And>a. taskSettles anyResult m (f a)" and "n + m \<le> b"
  shows "taskSettles anyResult b (thenT t f)"
  using taskSettles_thenT [OF assms(1,2)] assms(3) by (rule taskSettles_mono)

lemma now_within: "taskSettles anyResult n (now c)"
  by (rule taskSettles_now) (simp add: anyResult_def)

lemma awaitCall_within: "taskSettles anyResult (Suc n) (awaitCall c)"
  by (rule taskSettles_awaitCall) (simp add: anyResult_def)

lemma awaitCall_within1: "taskSettles anyResult 1 (awaitCall c)"
  using awaitCall_within [of 0 c] by simp

lemma query_within: "taskSettles anyResult 1 (queryCandidateByAsync col word sb v)"
proof (cases "orNull v")
  case None
  then show ?thesis by (simp add: queryCandidateByAsync_def now_within)
next
  case (Some x)
  have "taskSettles anyResult 1 (thenT (awaitCall (onWorld (selectRows sb col x)))
          (\<lambda>res. now (case sr_error res of
                   Some e \<Rightarrow> throw (Error (''Failed duplicate check by '' @ word @ '': ''
                                             @ textOf (e_message e)))
                 | None \<Rightarrow> return (firstRow (sr_data res)))))"
    by (rule thenT_within [where n = 1 and m = 0]) (simp_all add: awaitCall_within now_within)
  with Some show ?thesis by (simp add: queryCandidateByAsync_def)
qed

lemma awaitQuery_within: "taskSettles anyResult 2 (awaitTask (queryCandidateByAsync col word sb v))"
  using taskSettles_awaitTask [OF query_within] by (simp add: numeral_2_eq_2)

lemma finder_within:
  "taskSettles anyResult 6 (findExistingCandidateAsync sb email phone resumeUrl)"
  unfolding findExistingCandidateAsync_def
proof (rule thenT_within [where n = 2 and m = 4, OF awaitQuery_within])
  fix byEmail :: "candidate option"
  show "taskSettles anyResult 4
          (case byEmail of
             None \<Rightarrow> thenT (awaitTask (queryCandidateByAsync PhoneColumn ''phone'' sb phone))
                (\<lambda>byPhone. case byPhone of
                    None \<Rightarrow> thenT (awaitTask (queryCandidateByAsync ResumeUrlColumn ''resume URL'' sb resumeUrl))
                      (\<lambda>byResumeUrl. case byResumeUrl of
                          None \<Rightarrow> now (return None)
                        | Some c \<Rightarrow> now (return (Some \<lparr>f_candidate = c, f_matchBy = ''resume''\<rparr>)))
                  | Some c \<Rightarrow> now (return (Some \<lparr>f_candidate = c, f_matchBy = ''phone''\<rparr>)))
           | Some c \<Rightarrow> now (return (Some \<lparr>f_candidate = c, f_matchBy = ''email''\<rparr>)))"
  proof (cases byEmail)
    case (Some c)
    then show ?thesis by (simp add: now_within)
  next
    case None
    have "taskSettles anyResult 4 (thenT (awaitTask (queryCandidateByAsync PhoneColumn ''phone'' sb phone))
                (\<lambda>byPhone. case byPhone of
                    None \<Rightarrow> thenT (awaitTask (queryCandidateByAsync ResumeUrlColumn ''resume URL'' sb resumeUrl))
                      (\<lambda>byResumeUrl. case byResumeUrl of
                          None \<Rightarrow> now (return None)
                        | Some c \<Rightarrow> now (return (Some \<lparr>f_candidate = c, f_matchBy = ''resume''\<rparr>)))
                  | Some c \<Rightarrow> now (return (Some \<lparr>f_candidate = c, f_matchBy = ''phone''\<rparr>))))"
    proof (rule thenT_within [where n = 2 and m = 2, OF awaitQuery_within])
      fix byPhone :: "candidate option"
      show "taskSettles anyResult 2
              (case byPhone of
                 None \<Rightarrow> thenT (awaitTask (queryCandidateByAsync ResumeUrlColumn ''resume URL'' sb resumeUrl))
                    (\<lambda>byResumeUrl. case byResumeUrl of
                        None \<Rightarrow> now (return None)
                      | Some c \<Rightarrow> now (return (Some \<lparr>f_candidate = c, f_matchBy = ''resume''\<rparr>)))
               | Some c \<Rightarrow> now (return (Some \<lparr>f_candidate = c, f_matchBy = ''phone''\<rparr>)))"
      proof (cases byPhone)
        case (Some c)
        then show ?thesis by (simp add: now_within)
      next
        case None
        have "taskSettles anyResult 2
                (thenT (awaitTask (queryCandidateByAsync ResumeUrlColumn ''resume URL'' sb resumeUrl))
                    (\<lambda>byResumeUrl. case byResumeUrl of
                        None \<Rightarrow> now (return None)
                      | Some c \<Rightarrow> now (return (Some \<lparr>f_candidate = c, f_matchBy = ''resume''\<rparr>))))"
          by (rule thenT_within [where n = 2 and m = 0, OF awaitQuery_within])
             (simp_all add: now_within split: option.splits)
        with None show ?thesis by simp
      qed
    qed simp
    with None show ?thesis by simp
  qed
qed simp


lemma awaitTask_within:
  "taskSettles P n t \<Longrightarrow> Suc n \<le> b \<Longrightarrow> taskSettles P b (awaitTask t)"
  using taskSettles_awaitTask taskSettles_mono by blast

lemma awaitFinder_within:
  "taskSettles anyResult 7 (awaitTask (findExistingCandidateAsync sb email phone resumeUrl))"
  by (rule awaitTask_within [OF finder_within]) simp

lemma rejectIfFound_within: "taskSettles anyResult n (rejectIfFoundAsync existing)"
  by (simp add: rejectIfFoundAsync_def now_within)

lemma afterInsert_within: "taskSettles anyResult 7 (afterInsertAsync sb p resumeUrl res)"
proof (cases "ir_error res")
  case None
  then show ?thesis by (simp add: afterInsertAsync_def now_within)
next
  case (Some insertError)
  show ?thesis
  proof (cases "isUniqueViolation (Some insertError)")
    case False
    with Some show ?thesis by (simp add: afterInsertAsync_def now_within)
  next
    case True
    have "taskSettles anyResult 7
            (thenT (awaitTask (findExistingCandidateAsync sb (p_email p) (p_phone p) resumeUrl)) g)"
      if "\<And>a. taskSettles anyResult 0 (g a)" for g :: "found option \<Rightarrow> (call list state, candidate option) task"
      by (rule thenT_within [where n = 7 and m = 0, OF awaitFinder_within]) (simp_all add: that)
    with Some True show ?thesis by (simp add: afterInsertAsync_def now_within)
  qed
qed

lemma insertAndResolve_within: "taskSettles anyResult 8 (insertAndResolveAsync sb p resumeUrl)"
  unfolding insertAndResolveAsync_def
  by (rule thenT_within [where n = 1 and m = 7]) (simp_all add: awaitCall_within afterInsert_within)

lemma afterUpload_within:
  "taskSettles anyResult 15 (afterUploadAsync sb p resumeUrl storageError)"
  unfolding afterUploadAsync_def
proof (rule thenT_within [where n = 0 and m = 15])
  show "taskSettles anyResult 15
          (thenT (if isStorageAlreadyExistsError storageError
                  then thenT (awaitTask (findExistingCandidateAsync sb (p_email p) (p_phone p) resumeUrl))
                         rejectIfFoundAsync
                  else now (return ()))
             (\<lambda>_. insertAndResolveAsync sb p resumeUrl))" for u :: unit
  proof (rule thenT_within [where n = 7 and m = 8])
    show "taskSettles anyResult 7
            (if isStorageAlreadyExistsError storageError
             then thenT (awaitTask (findExistingCandidateAsync sb (p_email p) (p_phone p) resumeUrl))
                    rejectIfFoundAsync
             else now (return ()))"
    proof (cases "isStorageAlreadyExistsError storageError")
      case True
      have "taskSettles anyResult 7
              (thenT (awaitTask (findExistingCandidateAsync sb (p_email p) (p_phone p) resumeUrl))
                 rejectIfFoundAsync)"
        by (rule thenT_within [where n = 7 and m = 0, OF awaitFinder_within])
           (simp_all add: rejectIfFound_within)
      with True show ?thesis by simp
    next
      case False
      then show ?thesis by (simp add: now_within)
    qed
  qed (simp_all add: insertAndResolve_within)
qed (simp_all add: now_within)

lemma ingest_within:
  "taskSettles anyResult 23 (ingestAsync sb cfg p storagePath fileBuffer resumeUrl)"
  unfolding ingestAsync_def
proof (rule thenT_within [where n = 7 and m = 16, OF awaitFinder_within])
  show "taskSettles anyResult 16
          (thenT (rejectIfFoundAsync existingBeforeUpload) (\<lambda>_.
            thenT (awaitCall (onWorld (uploadBlob sb (resumeBucket cfg) storagePath fileBuffer)))
              (afterUploadAsync sb p resumeUrl)))" for existingBeforeUpload
  proof (rule thenT_within [where n = 0 and m = 16, OF rejectIfFound_within])
    show "taskSettles anyResult 16
            (thenT (awaitCall (onWorld (uploadBlob sb (resumeBucket cfg) storagePath fileBuffer)))
               (afterUploadAsync sb p resumeUrl))" for u :: unit
      by (rule thenT_within [where n = 1 and m = 15])
         (simp_all add: awaitCall_within afterUpload_within)
  qed simp
qed simp

lemma withDedupLock_within:
  assumes "taskSettles anyResult n fn"
  shows "taskSettles anyResult (Suc n) (withDedupLockAsync keys fn)"
proof -
  have "settlesWithin anyResult (Suc n) (fst (withDedupLockAsync keys fn s))" for s
  proof (cases "firstHeld (inFlightDedupKeys s) keys")
    case (Some k)
    then show ?thesis by (simp add: withDedupLockAsync_def anyResult_def)
  next
    case None
    let ?s1 = "s\<lparr>inFlightDedupKeys := addKeys keys (inFlightDedupKeys s)\<rparr>"
    have "settlesWithin anyResult (Suc n) (fst (awaitTask fn ?s1))"
      using taskSettles_awaitTask [OF assms] by (simp add: taskSettles_def)
    then have "settlesWithin anyResult (Suc n + 0)
                 (fst (onSettle (fst (awaitTask fn ?s1))
                    (\<lambda>r s2. (Ret r, s2\<lparr>inFlightDedupKeys := deleteKeys keys (inFlightDedupKeys s2)\<rparr>))
                    (snd (awaitTask fn ?s1))))"
      by (rule settles_onSettle) (simp add: anyResult_def)
    with None show ?thesis by (simp add: withDedupLockAsync_def case_prod_unfold)
  qed
  then show ?thesis by (simp add: taskSettles_def)
qed

lemma parse_within:
  "taskSettles anyResult 2 (parseResumeBufferAsync d fileBuffer :: ('s, parsed) task)"
proof -
  have "settlesWithin anyResult 2 (fst (parseResumeBufferAsync d fileBuffer s))" for s :: 's
  proof -
    let ?a = "awaitCall (\<lambda>s1 :: 's. (parseResumeBuffer d fileBuffer, s1)) s"
    have a: "settlesWithin anyResult 1 (fst ?a)"
      using awaitCall_within [of 0 "\<lambda>s1 :: 's. (parseResumeBuffer d fileBuffer, s1)"]
      by (simp add: taskSettles_def)
    have "taskSettles anyResult 1
            (thenT (awaitCall (return ())) (\<lambda>_. now (\<lambda>s2. (r, s2))) :: ('s, parsed) task)"
      for r :: "error + parsed"
      by (rule thenT_within [where n = 1 and m = 0, OF awaitCall_within1])
         (simp_all add: now_within)
    then have b: "settlesWithin anyResult 1
               (fst (thenT (awaitCall (return ())) (\<lambda>_. now (\<lambda>s2. (r, s2))) s'))"
      for r :: "error + parsed" and s' :: 's
      by (simp add: taskSettles_def)
    have "settlesWithin anyResult (1 + 1)
            (fst (onSettle (fst ?a)
               (\<lambda>r. thenT (awaitCall (return ())) (\<lambda>_. now (\<lambda>s2. (r, s2)))) (snd ?a)))"
      using a b by (rule settles_onSettle)
    then show ?thesis by (simp add: parseResumeBufferAsync_def case_prod_unfold numeral_2_eq_2)
  qed
  then show ?thesis by (simp add: taskSettles_def)
qed

lemma saveCandidateFromFile_within:
  "taskSettles anyResult 28 (saveCandidateFromFileAsync d sb cfg f)"
  unfolding saveCandidateFromFileAsync_def
proof (rule thenT_within [where n = 1 and m = 27, OF awaitCall_within1])
  fix fileBuffer
  show "taskSettles anyResult 27
          (thenT (awaitTask (parseResumeBufferAsync d fileBuffer)) (\<lambda>p.
             (let resumeHash = buildResumeHash d fileBuffer;
                  storagePath = buildResumeStoragePath resumeHash None;
                  resumeUrl = getResumePublicUrl sb (resumeBucket cfg) storagePath;
                  payload = normalizeCandidatePayload p resumeUrl;
                  dedupKeys = buildDedupKeys (p_email payload) (p_phone payload) (Some resumeHash)
              in withDedupLockAsync dedupKeys
                   (ingestAsync sb cfg payload storagePath fileBuffer resumeUrl))))"
  proof (rule thenT_within [where n = 3 and m = 24])
    show "taskSettles anyResult 3 (awaitTask (parseResumeBufferAsync d fileBuffer))"
      by (rule awaitTask_within [OF parse_within]) simp
  next
    fix p
    show "taskSettles anyResult 24
            (let resumeHash = buildResumeHash d fileBuffer;
                  storagePath = buildResumeStoragePath resumeHash None;
                  resumeUrl = getResumePublicUrl sb (resumeBucket cfg) storagePath;
                  payload = normalizeCandidatePayload p resumeUrl;
                  dedupKeys = buildDedupKeys (p_email payload) (p_phone payload) (Some resumeHash)
              in withDedupLockAsync dedupKeys
                   (ingestAsync sb cfg payload storagePath fileBuffer resumeUrl))"
      using withDedupLock_within [OF ingest_within] by (simp add: Let_def)
  qed simp
qed simp

lemma uploadHandler_alwaysReturns:
  fixes save :: "upfile \<Rightarrow> ('s, candidate option) task"
  assumes "\<And>f. taskSettles anyResult n (save f)"
  shows "alwaysReturns (n + 3) (uploadHandler save)"
proof -
  have "settlesWithin isOutcome (n + 3) (fst (uploadHandler save f s))" for f s
  proof -
    let ?a = "awaitTask (save f) s"
    have a: "settlesWithin anyResult (Suc n) (fst ?a)"
      using taskSettles_awaitTask [OF assms [of f]] by (simp add: taskSettles_def)
    have d: "taskSettles isOutcome 2 (awaitTask (deleteTempFile (f_path f) :: ('s, unit) task))"
      by (rule awaitTask_within [where n = 1])
         (simp_all add: deleteTempFile_def taskSettles_now taskSettles_awaitCall return_def)
    have b: "settlesWithin isOutcome 2
               (fst (thenT (awaitTask (deleteTempFile (f_path f)))
                       (\<lambda>_. now (return (outcomeOf f r))) s'))" for r and s' :: 's
    proof -
      let ?d = "awaitTask (deleteTempFile (f_path f)) s'"
      have "settlesWithin isOutcome (2 + 0)
              (fst (onSettle (fst ?d)
                 (\<lambda>r'. case r' of Inl e \<Rightarrow> now (throw e)
                                | Inr a \<Rightarrow> now (return (outcomeOf f r))) (snd ?d)))"
      proof (rule settles_onSettle [where Q = isOutcome])
        show "settlesWithin isOutcome 2 (fst ?d)" using d by (simp add: taskSettles_def)
      next
        fix r' :: "error + unit" and s2
        assume "isOutcome r'"
        then show "settlesWithin isOutcome 0
                     (fst ((case r' of Inl e \<Rightarrow> now (throw e)
                                     | Inr a \<Rightarrow> now (return (outcomeOf f r))) s2))"
          by (cases r') (simp_all add: now_def return_def)
      qed
      then show ?thesis by (simp add: thenT_def case_prod_unfold)
    qed
    have "settlesWithin isOutcome (Suc n + 2)
            (fst (onSettle (fst ?a)
               (\<lambda>r. thenT (awaitTask (deleteTempFile (f_path f)))
                       (\<lambda>_. now (return (outcomeOf f r)))) (snd ?a)))"
      using a b by (rule settles_onSettle)
    then show ?thesis by (simp add: uploadHandler_def case_prod_unfold numeral_3_eq_3)
  qed
  then show ?thesis by (simp add: alwaysReturns_def taskSettles_def)
qed

lemma route_handler_alwaysReturns:
  "alwaysReturns 31 (uploadHandler (saveCandidateFromFileAsync d sb cfg))"
  using uploadHandler_alwaysReturns [of 28 "saveCandidateFromFileAsync d sb cfg",
          OF saveCandidateFromFile_within] by simp

section \<open>Properties of the dispatcher\<close>

subsection \<open>Turns needed and evolution of a call\<close>

lemma need_settles:
  assumes "settlesWithin isOutcome n q"
  shows "settlesWithin isOutcome (need q) q" and "need q \<le> n"
  unfolding need_def using assms by (rule LeastI, rule Least_le)

lemma need_Ret: "need (Ret (Inr v)) = 0"
  using need_settles(2) [of 0 "Ret (Inr v)"] by simp

lemma need_step:
  assumes "settlesWithin isOutcome n (Await c)"
  shows "need (fst (c s)) < need (Await c)"
proof -
  have a: "settlesWithin isOutcome (need (Await c)) (Await c)" using assms by (rule need_settles)
  then obtain m where m: "need (Await c) = Suc m" by (cases "need (Await c)") simp_all
  with a have "settlesWithin isOutcome m (fst (c s))" by simp
  then have "need (fst (c s)) \<le> m" by (rule need_settles)
  with m show ?thesis by simp
qed

lemma settles_step:
  assumes "settlesWithin P n (Await c)"
  shows "settlesWithin P n (fst (c s))"
proof -
  from assms obtain m where m: "n = Suc m" by (cases n) simp_all
  with assms have "settlesWithin P m (fst (c s))" by simp
  then show ?thesis using m settlesWithin_mono [of P m _ n] by simp
qed

lemma evolves_step:
  assumes "evolves a b" and "b = Await c"
  shows "evolves a (fst (c s))"
  using assms
proof (induction rule: evolves.induct)
  case (same q)
  then show ?case using evolves.later [of c s "fst (c s)"] evolves.same by blast
next
  case (later k s0 q)
  from later.IH [OF later.prems] show ?case by (rule evolves.later)
qed

subsection \<open>The invariant of the pool\<close>

lemma poolInvD:
  assumes "poolInv files handler B p"
  shows "length (results p) = length files"
    and "rejection p = None"
    and "\<And>k e. k < length (workers p) \<Longrightarrow> workers p ! k \<noteq> Failed e"
    and "\<And>k i q. k < length (workers p) \<Longrightarrow> workers p ! k = Awaiting i q \<Longrightarrow>
           i < length files \<and> i < nextIndex p \<and> results p ! i = None \<and>
           settlesWithin isOutcome B q \<and> (\<exists>s. evolves (fst (handler (files ! i) s)) q)"
    and "\<And>k k' i q q'. k < length (workers p) \<Longrightarrow> k' < length (workers p) \<Longrightarrow>
           workers p ! k = Awaiting i q \<Longrightarrow> workers p ! k' = Awaiting i q' \<Longrightarrow> k = k'"
    and "\<And>i. i < length files \<Longrightarrow> i < nextIndex p \<Longrightarrow>
           results p ! i \<noteq> None \<or> (\<exists>k q. k < length (workers p) \<and> workers p ! k = Awaiting i q)"
    and "\<And>i v. i < length files \<Longrightarrow> results p ! i = Some v \<Longrightarrow>
           i < nextIndex p \<and> resultOf handler (files ! i) v"
    and "\<And>k. k < length (workers p) \<Longrightarrow> workers p ! k = Done \<Longrightarrow> length files \<le> nextIndex p"
  using assms unfolding poolInv_def by blast+

lemma poolInvI:
  assumes "nextIndex p = n" and "results p = rs" and "workers p = ws" and "rejection p = None"
    and "length rs = length files"
    and "\<And>k e. k < length ws \<Longrightarrow> ws ! k \<noteq> Failed e"
    and "\<And>k i q. k < length ws \<Longrightarrow> ws ! k = Awaiting i q \<Longrightarrow>
           i < length files \<and> i < n \<and> rs ! i = None \<and>
           settlesWithin isOutcome B q \<and> (\<exists>s. evolves (fst (handler (files ! i) s)) q)"
    and "\<And>k k' i q q'. k < length ws \<Longrightarrow> k' < length ws \<Longrightarrow>
           ws ! k = Awaiting i q \<Longrightarrow> ws ! k' = Awaiting i q' \<Longrightarrow> k = k'"
    and "\<And>i. i < length files \<Longrightarrow> i < n \<Longrightarrow>
           rs ! i \<noteq> None \<or> (\<exists>k q. k < length ws \<and> ws ! k = Awaiting i q)"
    and "\<And>i v. i < length files \<Longrightarrow> rs ! i = Some v \<Longrightarrow>
           i < n \<and> resultOf handler (files ! i) v"
    and "\<And>k. k < length ws \<Longrightarrow> ws ! k = Done \<Longrightarrow> length files \<le> n"
  shows "poolInv files handler B p"
  unfolding poolInv_def assms(1-4) using assms(5-11) by blast

lemma poolInv_await:
  assumes inv: "poolInv files handler B p"
    and k: "k < length (workers p)" and wk: "workers p ! k = Awaiting i q"
    and q': "settlesWithin isOutcome B q'" "\<exists>s. evolves (fst (handler (files ! i) s)) q'"
  shows "poolInv files handler B
           (p\<lparr>workers := (workers p)[k := Awaiting i q'], handlerState := s'\<rparr>)"
proof (rule poolInvI [where n = "nextIndex p" and rs = "results p"
                        and ws = "(workers p)[k := Awaiting i q']"])
  note D = poolInvD [OF inv]
  let ?ws = "(workers p)[k := Awaiting i q']"
  have old: "i < length files" "i < nextIndex p" "results p ! i = None"
    using D(4) [OF k wk] by simp_all
  have nth: "?ws ! j = (if j = k then Awaiting i q' else workers p ! j)"
    if "j < length (workers p)" for j
    using that by (simp add: nth_list_update)
  show "length (results p) = length files" by (rule D(1))
  show "?ws ! k2 \<noteq> Failed e" if "k2 < length ?ws" for k2 e
    using that nth [of k2] D(3) [of k2 e] by (cases "k2 = k") simp_all
  show "i2 < length files \<and> i2 < nextIndex p \<and> results p ! i2 = None \<and>
        settlesWithin isOutcome B q2 \<and> (\<exists>s. evolves (fst (handler (files ! i2) s)) q2)"
    if "k2 < length ?ws" "?ws ! k2 = Awaiting i2 q2" for k2 i2 q2
  proof (cases "k2 = k")
    case True
    with that nth [of k2] have "i2 = i" "q2 = q'" by simp_all
    with old q' show ?thesis by simp
  next
    case False
    with that nth [of k2] have "k2 < length (workers p)" "workers p ! k2 = Awaiting i2 q2"
      by simp_all
    then show ?thesis by (rule D(4))
  qed
  show "k2 = k3"
    if "k2 < length ?ws" "k3 < length ?ws" "?ws ! k2 = Awaiting i2 q2" "?ws ! k3 = Awaiting i2 q3"
    for k2 k3 i2 q2 q3
  proof -
    have a: "\<exists>q. workers p ! k2 = Awaiting i2 q"
      using that(1,3) nth [of k2] wk by (cases "k2 = k") simp_all
    have b: "\<exists>q. workers p ! k3 = Awaiting i2 q"
      using that(2,4) nth [of k3] wk by (cases "k3 = k") simp_all
    from a b that(1,2) show ?thesis using D(5) [of k2 k3 i2] by auto
  qed
  show "results p ! i2 \<noteq> None \<or> (\<exists>k2 q2. k2 < length ?ws \<and> ?ws ! k2 = Awaiting i2 q2)"
    if "i2 < length files" "i2 < nextIndex p" for i2
  proof (cases "results p ! i2 = None")
    case True
    with D(6) [OF that] obtain k2 q2 where
      k2: "k2 < length (workers p)" "workers p ! k2 = Awaiting i2 q2" by blast
    have "\<exists>q3. ?ws ! k2 = Awaiting i2 q3"
      using k2 nth [of k2] wk by (cases "k2 = k") simp_all
    with k2(1) show ?thesis by auto
  qed simp
  show "i2 < nextIndex p \<and> resultOf handler (files ! i2) v"
    if "i2 < length files" "results p ! i2 = Some v" for i2 v
    using that by (rule D(7))
  show "length files \<le> nextIndex p" if "k2 < length ?ws" "?ws ! k2 = Done" for k2
    using that nth [of k2] D(8) [of k2] by (cases "k2 = k") simp_all
qed (simp_all add: poolInvD(2) [OF inv])

lemma poolInv_resume:
  assumes inv: "poolInv files handler B p"
    and k: "k < length (workers p)" and wk: "workers p ! k = Awaiting i (Ret (Inr v))"
    and w: "if length files \<le> nextIndex p then w = Done
            else \<exists>q s. w = Awaiting (nextIndex p) q \<and> settlesWithin isOutcome B q \<and>
                   q = fst (handler (files ! nextIndex p) s)"
  shows "poolInv files handler B
           (p\<lparr>results := (results p)[i := Some v], nextIndex := nextIndex p + 1,
              handlerState := s', workers := (workers p)[k := w]\<rparr>)"
proof (rule poolInvI [where n = "nextIndex p + 1" and rs = "(results p)[i := Some v]"
                        and ws = "(workers p)[k := w]"])
  note D = poolInvD [OF inv]
  let ?ws = "(workers p)[k := w]"
  let ?rs = "(results p)[i := Some v]"
  let ?n = "nextIndex p"
  have old: "i < length files" "i < ?n" "results p ! i = None"
    "\<exists>s. evolves (fst (handler (files ! i) s)) (Ret (Inr v))"
    using D(4) [OF k wk] by simp_all
  have nth: "?ws ! j = (if j = k then w else workers p ! j)"
    if "j < length (workers p)" for j
    using that by (simp add: nth_list_update)
  have rs: "?rs ! j = (if j = i then Some v else results p ! j)" if "j < length files" for j
    using that D(1) by (simp add: nth_list_update)
  have other: "i2 \<noteq> i" if "k2 < length (workers p)" "k2 \<noteq> k" "workers p ! k2 = Awaiting i2 q2"
    for k2 i2 q2
    using that D(5) [of k2 k i2 q2 "Ret (Inr v)"] k wk by auto
  have fresh: "results p ! ?n = None" if "?n < length files"
  proof (cases "results p ! ?n")
    case (Some x)
    with D(7) [OF that Some] show ?thesis by simp
  qed simp
  show "length ?rs = length files" using D(1) by simp
  show "?ws ! k2 \<noteq> Failed e" if "k2 < length ?ws" for k2 e
  proof (cases "k2 = k")
    case True
    with that nth [of k2] w show ?thesis by (auto split: if_splits)
  next
    case False
    with that nth [of k2] D(3) [of k2 e] show ?thesis by simp
  qed
  show "i2 < length files \<and> i2 < ?n + 1 \<and> ?rs ! i2 = None \<and>
        settlesWithin isOutcome B q2 \<and> (\<exists>s. evolves (fst (handler (files ! i2) s)) q2)"
    if "k2 < length ?ws" "?ws ! k2 = Awaiting i2 q2" for k2 i2 q2
  proof (cases "k2 = k")
    case True
    with that nth [of k2] have weq: "w = Awaiting i2 q2" by simp
    with w have lt: "?n < length files" by (auto split: if_splits)
    with w weq obtain s where q2: "i2 = ?n" "settlesWithin isOutcome B q2"
      "q2 = fst (handler (files ! ?n) s)" by auto
    have "evolves (fst (handler (files ! i2) s)) q2" using q2(1,3) evolves.same by simp
    moreover have "?rs ! i2 = None" using rs [of i2] q2(1) lt old(2) fresh by simp
    ultimately show ?thesis using q2 lt by auto
  next
    case False
    with that nth [of k2] have o: "k2 < length (workers p)" "workers p ! k2 = Awaiting i2 q2"
      by simp_all
    from D(4) [OF o] other [OF o(1) False o(2)] rs [of i2] show ?thesis by simp
  qed
  show "k2 = k3"
    if "k2 < length ?ws" "k3 < length ?ws" "?ws ! k2 = Awaiting i2 q2" "?ws ! k3 = Awaiting i2 q3"
    for k2 k3 i2 q2 q3
  proof -
    have new: "i3 = ?n" if "w = Awaiting i3 q4" for i3 q4
      using that w by (auto split: if_splits)
    have lt: "i3 < ?n" if "k4 < length (workers p)" "workers p ! k4 = Awaiting i3 q4" for k4 i3 q4
      using D(4) [OF that] by simp
    show ?thesis
    proof (cases "k2 = k")
      case True
      note k2 = this
      show ?thesis
      proof (cases "k3 = k")
        case True
        with k2 show ?thesis by simp
      next
        case False
        from k2 that(1,3) nth [of k2] have "i2 = ?n" using new by simp
        moreover from False that(2,4) nth [of k3] have "i2 < ?n" using lt [of k3 i2 q3] by simp
        ultimately show ?thesis by simp
      qed
    next
      case False
      note k2 = this
      show ?thesis
      proof (cases "k3 = k")
        case True
        from True that(2,4) nth [of k3] have "i2 = ?n" using new by simp
        moreover from k2 that(1,3) nth [of k2] have "i2 < ?n" using lt [of k2 i2 q2] by simp
        ultimately show ?thesis by simp
      next
        case False
        with k2 that nth [of k2] nth [of k3] show ?thesis using D(5) [of k2 k3 i2 q2 q3] by simp
      qed
    qed
  qed
  show "?rs ! i2 \<noteq> None \<or> (\<exists>k2 q2. k2 < length ?ws \<and> ?ws ! k2 = Awaiting i2 q2)"
    if "i2 < length files" "i2 < ?n + 1" for i2
  proof (cases "i2 = i")
    case True
    with rs [of i2] that(1) show ?thesis by simp
  next
    case False
    note ne = this
    show ?thesis
    proof (cases "i2 = ?n")
      case True
      with that(1) w obtain q where "w = Awaiting i2 q" by (auto split: if_splits)
      with k nth [of k] have "k < length ?ws \<and> ?ws ! k = Awaiting i2 q" by simp
      then show ?thesis by blast
    next
      case False
      with that have "i2 < ?n" by simp
      from D(6) [OF that(1) this] show ?thesis
      proof
        assume "results p ! i2 \<noteq> None"
        with rs [of i2] that(1) ne show ?thesis by simp
      next
        assume "\<exists>k2 q2. k2 < length (workers p) \<and> workers p ! k2 = Awaiting i2 q2"
        then obtain k2 q2 where k2: "k2 < length (workers p)" "workers p ! k2 = Awaiting i2 q2"
          by blast
        have "k2 \<noteq> k" using k2(2) wk ne by auto
        with k2 nth [of k2] have "k2 < length ?ws \<and> ?ws ! k2 = Awaiting i2 q2" by simp
        then show ?thesis by blast
      qed
    qed
  qed
  show "i2 < ?n + 1 \<and> resultOf handler (files ! i2) v2"
    if "i2 < length files" "?rs ! i2 = Some v2" for i2 v2
  proof (cases "i2 = i")
    case True
    with that rs [of i2] have "v2 = v" by simp
    with True old show ?thesis by (simp add: resultOf_def)
  next
    case False
    with that rs [of i2] have "results p ! i2 = Some v2" by simp
    from D(7) [OF that(1) this] show ?thesis by simp
  qed
  show "length files \<le> ?n + 1" if "k2 < length ?ws" "?ws ! k2 = Done" for k2
  proof (cases "k2 = k")
    case True
    with that nth [of k2] w show ?thesis by (auto split: if_splits)
  next
    case False
    with that nth [of k2] D(8) [of k2] show ?thesis by simp
  qed
qed (simp_all add: poolInvD(2) [OF inv])

subsection \<open>Turns of the workers\<close>

lemma workerCount_bounds:
  "1 \<le> workerCount c n" "workerCount c n \<le> max 1 n" "0 < n \<Longrightarrow> workerCount c n \<le> n"
  by (simp_all add: workerCount_def)

lemma enterLoop_done:
  "length files \<le> nextIndex p \<Longrightarrow>
     enterLoop files handler p = (Done, p\<lparr>nextIndex := nextIndex p + 1\<rparr>)"
  by (simp add: enterLoop_def)

lemma enterLoop_call:
  "nextIndex p < length files \<Longrightarrow>
     enterLoop files handler p =
       (Awaiting (nextIndex p) (fst (handler (files ! nextIndex p) (handlerState p))),
        p\<lparr>nextIndex := nextIndex p + 1,
          handlerState := snd (handler (files ! nextIndex p) (handlerState p))\<rparr>)"
  by (simp add: enterLoop_def case_prod_unfold Let_def)

lemma turn_await:
  "workers p ! k = Awaiting i (Await c) \<Longrightarrow>
     turn files handler k p =
       p\<lparr>workers := (workers p)[k := Awaiting i (fst (c (handlerState p)))],
         handlerState := snd (c (handlerState p))\<rparr>"
  by (simp add: turn_def case_prod_unfold)

lemma turn_resume_done:
  "workers p ! k = Awaiting i (Ret (Inr v)) \<Longrightarrow> length files \<le> nextIndex p \<Longrightarrow>
     turn files handler k p =
       p\<lparr>results := (results p)[i := Some v], nextIndex := nextIndex p + 1,
         handlerState := handlerState p, workers := (workers p)[k := Done]\<rparr>"
  by (simp add: turn_def enterLoop_done)

lemma turn_resume_call:
  "workers p ! k = Awaiting i (Ret (Inr v)) \<Longrightarrow> nextIndex p < length files \<Longrightarrow>
     turn files handler k p =
       p\<lparr>results := (results p)[i := Some v], nextIndex := nextIndex p + 1,
         handlerState := snd (handler (files ! nextIndex p) (handlerState p)),
         workers := (workers p)[k := Awaiting (nextIndex p)
                      (fst (handler (files ! nextIndex p) (handlerState p)))]\<rparr>"
  by (simp add: turn_def enterLoop_call)

lemma sum_cost_update:
  assumes "k < length ws"
  shows "sum_list (map cost (ws[k := w])) + cost (ws ! k) = sum_list (map cost ws) + cost w"
proof -
  have "cost (ws ! k) \<le> sum_list (map cost ws)"
    using assms elem_le_sum_list [of k "map cost ws"] by simp
  moreover have "sum_list (map cost (ws[k := w])) = sum_list (map cost ws) + cost w - cost (ws ! k)"
    using assms by (simp add: map_update sum_list_update)
  ultimately show ?thesis by simp
qed

lemma turn_step:
  assumes inv: "poolInv files handler B p" and ret: "alwaysReturns B handler"
    and k: "k < length (workers p)" and wk: "workers p ! k = Awaiting i q"
  shows "poolInv files handler B (turn files handler k p)"
    and "potential files B (turn files handler k p) < potential files B p"
    and "length (workers (turn files handler k p)) = length (workers p)"
proof -
  note D = poolInvD [OF inv]
  have q: "settlesWithin isOutcome B q" "\<exists>s. evolves (fst (handler (files ! i) s)) q"
    using D(4) [OF k wk] by simp_all
  have all: "poolInv files handler B (turn files handler k p) \<and>
             potential files B (turn files handler k p) < potential files B p \<and>
             length (workers (turn files handler k p)) = length (workers p)"
  proof (cases q)
    case (Await c)
    let ?q' = "fst (c (handlerState p))"
    have t: "turn files handler k p =
               p\<lparr>workers := (workers p)[k := Awaiting i ?q'],
                 handlerState := snd (c (handlerState p))\<rparr>"
      using wk Await by (simp add: turn_await)
    have s': "settlesWithin isOutcome B ?q'"
      using settles_step [of isOutcome B c "handlerState p"] q(1) Await by simp
    from q(2) obtain s where "evolves (fst (handler (files ! i) s)) (Await c)" using Await by blast
    then have "evolves (fst (handler (files ! i) s)) ?q'" by (rule evolves_step) simp
    then have e': "\<exists>s. evolves (fst (handler (files ! i) s)) ?q'" by blast
    have "poolInv files handler B (turn files handler k p)"
      unfolding t using inv k wk s' e' by (rule poolInv_await)
    moreover have "need ?q' < need q"
      using need_step [of B c "handlerState p"] q(1) Await by simp
    then have "potential files B (turn files handler k p) < potential files B p"
      using sum_cost_update [OF k, of "Awaiting i ?q'"] wk
      by (simp add: t potential_def)
    ultimately show ?thesis by (simp add: t)
  next
    case (Ret r)
    with q(1) obtain v where r: "r = Inr v" by (cases r) simp_all
    have wk': "workers p ! k = Awaiting i (Ret (Inr v))" using wk Ret r by simp
    have c1: "cost (workers p ! k) = 1" using wk' by (simp add: need_Ret)
    show ?thesis
    proof (cases "length files \<le> nextIndex p")
      case True
      note t = turn_resume_done [OF wk' True, of handler]
      have "poolInv files handler B (turn files handler k p)"
        unfolding t using inv k wk' by (rule poolInv_resume) (simp add: True)
      moreover have "potential files B (turn files handler k p) < potential files B p"
        using sum_cost_update [OF k, of Done] c1 True by (simp add: t potential_def)
      ultimately show ?thesis by (simp add: t)
    next
      case False
      then have lt: "nextIndex p < length files" by simp
      let ?q2 = "fst (handler (files ! nextIndex p) (handlerState p))"
      note t = turn_resume_call [OF wk' lt, of handler]
      have s2: "settlesWithin isOutcome B ?q2"
        using ret by (simp add: alwaysReturns_def taskSettles_def)
      have "poolInv files handler B (turn files handler k p)"
        unfolding t using inv k wk'
      proof (rule poolInv_resume)
        show "if length files \<le> nextIndex p then Awaiting (nextIndex p) ?q2 = Done
              else \<exists>q s. Awaiting (nextIndex p) ?q2 = Awaiting (nextIndex p) q \<and>
                     settlesWithin isOutcome B q \<and> q = fst (handler (files ! nextIndex p) s)"
          using lt s2 by auto
      qed
      moreover have "potential files B (turn files handler k p) < potential files B p"
      proof -
        obtain d where d: "length files - nextIndex p = Suc d" using lt by (cases "length files - nextIndex p") simp_all
        then have d': "length files - (nextIndex p + 1) = d" by simp
        have "need ?q2 \<le> B" using s2 by (rule need_settles)
        then show ?thesis
          using sum_cost_update [OF k, of "Awaiting (nextIndex p) ?q2"] c1 lt d d'
          by (simp add: t potential_def min_def)
      qed
      ultimately show ?thesis by (simp add: t)
    qed
  qed
  then show "poolInv files handler B (turn files handler k p)"
    and "potential files B (turn files handler k p) < potential files B p"
    and "length (workers (turn files handler k p)) = length (workers p)"
    by simp_all
qed

lemma pending_mem:
  "k \<in> set (pending p) \<longleftrightarrow> k < length (workers p) \<and> (\<exists>i q. workers p ! k = Awaiting i q)"
  by (cases "workers p ! k") (auto simp add: pending_def)

lemma tick_idle: "pending p = [] \<Longrightarrow> tick files handler c p = p"
  by (simp add: tick_def)

lemma tick_turn:
  assumes "pending p \<noteq> []"
  shows "\<exists>k i q. k < length (workers p) \<and> workers p ! k = Awaiting i q \<and>
                  tick files handler c p = turn files handler k p"
proof -
  let ?k = "pending p ! (c mod length (pending p))"
  have "?k \<in> set (pending p)" using assms by simp
  then have "?k < length (workers p) \<and> (\<exists>i q. workers p ! ?k = Awaiting i q)"
    by (simp add: pending_mem)
  moreover have "tick files handler c p = turn files handler ?k p"
    using assms by (cases "pending p") (simp_all add: tick_def)
  ultimately show ?thesis by blast
qed

lemma tick_step:
  assumes "poolInv files handler B p" and "alwaysReturns B handler"
  shows "poolInv files handler B (tick files handler c p)"
    and "length (workers (tick files handler c p)) = length (workers p)"
    and "pending p \<noteq> [] \<Longrightarrow> potential files B (tick files handler c p) < potential files B p"
proof -
  have "poolInv files handler B (tick files handler c p) \<and>
        length (workers (tick files handler c p)) = length (workers p) \<and>
        (pending p \<noteq> [] \<longrightarrow> potential files B (tick files handler c p) < potential files B p)"
  proof (cases "pending p = []")
    case True
    with assms(1) show ?thesis by (simp add: tick_idle)
  next
    case False
    from tick_turn [OF False, of files handler c] obtain k i q where
      k: "k < length (workers p)" "workers p ! k = Awaiting i q"
         "tick files handler c p = turn files handler k p" by blast
    from turn_step [OF assms k(1,2)] show ?thesis by (simp add: k(3))
  qed
  then show "poolInv files handler B (tick files handler c p)"
    and "length (workers (tick files handler c p)) = length (workers p)"
    and "pending p \<noteq> [] \<Longrightarrow> potential files B (tick files handler c p) < potential files B p"
    by simp_all
qed

lemma runPool_Cons:
  "runPool files handler (c # sched) p = runPool files handler sched (tick files handler c p)"
  by (simp add: runPool_def)

lemma runPool_inv:
  assumes "alwaysReturns B handler"
  shows "poolInv files handler B p \<Longrightarrow>
           poolInv files handler B (runPool files handler sched p) \<and>
           length (workers (runPool files handler sched p)) = length (workers p)"
proof (induction sched arbitrary: p)
  case Nil
  then show ?case by (simp add: runPool_def)
next
  case (Cons c sched)
  from tick_step(1,2) [OF Cons.prems assms, of c] Cons.IH [of "tick files handler c p"]
  show ?case by (simp add: runPool_Cons)
qed

lemma potential_pending:
  assumes "potential files B p = 0"
  shows "pending p = []"
proof (rule ccontr)
  assume "pending p \<noteq> []"
  then obtain k where "k \<in> set (pending p)" by (cases "pending p") auto
  then obtain i q where k: "k < length (workers p)" "workers p ! k = Awaiting i q"
    by (auto simp add: pending_mem)
  have "cost (workers p ! k) \<le> sum_list (map cost (workers p))"
    using k(1) elem_le_sum_list [of k "map cost (workers p)"] by simp
  moreover have "1 \<le> cost (workers p ! k)" using k(2) by simp
  moreover have "sum_list (map cost (workers p)) \<le> potential files B p"
    by (simp add: potential_def)
  ultimately show False using assms by linarith
qed

lemma runPool_idle: "pending p = [] \<Longrightarrow> runPool files handler sched p = p"
  by (induction sched) (simp_all add: runPool_def tick_idle)

lemma runPool_finishes:
  assumes "alwaysReturns B handler"
  shows "poolInv files handler B p \<Longrightarrow> potential files B p \<le> length sched \<Longrightarrow>
           pending (runPool files handler sched p) = []"
proof (induction sched arbitrary: p)
  case Nil
  then show ?case by (simp add: runPool_def potential_pending)
next
  case (Cons c sched)
  show ?case
  proof (cases "pending p = []")
    case True
    then show ?thesis by (simp add: runPool_idle)
  next
    case False
    from tick_step(3) [OF Cons.prems(1) assms False, of c] Cons.prems(2)
    have "potential files B (tick files handler c p) \<le> length sched" by simp
    with tick_step(1) [OF Cons.prems(1) assms, of c] Cons.IH
    show ?thesis by (simp add: runPool_Cons)
  qed
qed

subsection \<open>The workers at the start\<close>

lemma spawn_eq:
  "spawn files handler p =
     (if length files \<le> nextIndex p
      then p\<lparr>nextIndex := nextIndex p + 1, workers := workers p @ [Done]\<rparr>
      else p\<lparr>nextIndex := nextIndex p + 1,
             handlerState := snd (handler (files ! nextIndex p) (handlerState p)),
             workers := workers p @ [Awaiting (nextIndex p)
                          (fst (handler (files ! nextIndex p) (handlerState p)))]\<rparr>)"
  by (simp add: spawn_def enterLoop_def case_prod_unfold Let_def)

lemma spawned:
  assumes ret: "alwaysReturns B handler"
  shows "let p = fold (\<lambda>_. spawn files handler) [0..<j]
                   \<lparr>nextIndex = 0, results = replicate (length files) None, workers = [],
                    rejection = None, handlerState = s\<rparr>
         in nextIndex p = j \<and> length (workers p) = j \<and>
            results p = replicate (length files) None \<and> rejection p = None \<and>
            (\<forall>k<j. (length files \<le> k \<longrightarrow> workers p ! k = Done) \<and>
                    (k < length files \<longrightarrow>
                       (\<exists>s'. workers p ! k = Awaiting k (fst (handler (files ! k) s'))))) \<and>
            sum_list (map cost (workers p)) \<le> min j (length files) * (B + 1)"
proof (induction j)
  case 0
  then show ?case by simp
next
  case (Suc j)
  let ?init = "\<lparr>nextIndex = 0, results = replicate (length files) None, workers = [],
                rejection = None, handlerState = s\<rparr>"
  let ?p = "fold (\<lambda>_. spawn files handler) [0..<j] ?init"
  from Suc have p: "nextIndex ?p = j" "length (workers ?p) = j"
    "results ?p = replicate (length files) None" "rejection ?p = None"
    "\<And>k. k < j \<Longrightarrow> length files \<le> k \<Longrightarrow> workers ?p ! k = Done"
    "\<And>k. k < j \<Longrightarrow> k < length files \<Longrightarrow>
        \<exists>s'. workers ?p ! k = Awaiting k (fst (handler (files ! k) s'))"
    "sum_list (map cost (workers ?p)) \<le> min j (length files) * (B + 1)"
    by (simp_all add: Let_def)
  have step: "fold (\<lambda>_. spawn files handler) [0..<Suc j] ?init = spawn files handler ?p"
    by simp
  show ?case
  proof (cases "length files \<le> j")
    case True
    then have sp: "spawn files handler ?p =
        ?p\<lparr>nextIndex := j + 1, workers := workers ?p @ [Done]\<rparr>"
      using p(1) by (simp add: spawn_eq)
    have "(length files \<le> k \<longrightarrow> (workers ?p @ [Done]) ! k = Done) \<and>
          (k < length files \<longrightarrow>
             (\<exists>s'. (workers ?p @ [Done]) ! k = Awaiting k (fst (handler (files ! k) s'))))"
      if "k < Suc j" for k
    proof (cases "k = j")
      case True
      with \<open>length files \<le> j\<close> p(2) show ?thesis by (simp add: nth_append)
    next
      case False
      with that have "k < j" by simp
      with p(2) p(5) [of k] p(6) [of k] show ?thesis by (simp add: nth_append)
    qed
    moreover have "min (Suc j) (length files) = min j (length files)" using True by simp
    ultimately show ?thesis
      unfolding step sp using p(2,3,4,7) by (simp add: Let_def)
  next
    case False
    let ?q = "fst (handler (files ! j) (handlerState ?p))"
    let ?w = "Awaiting j ?q"
    from False have sp: "spawn files handler ?p =
        ?p\<lparr>nextIndex := j + 1, handlerState := snd (handler (files ! j) (handlerState ?p)),
           workers := workers ?p @ [?w]\<rparr>"
      using p(1) by (simp add: spawn_eq)
    have "(length files \<le> k \<longrightarrow> (workers ?p @ [?w]) ! k = Done) \<and>
          (k < length files \<longrightarrow>
             (\<exists>s'. (workers ?p @ [?w]) ! k = Awaiting k (fst (handler (files ! k) s'))))"
      if "k < Suc j" for k
    proof (cases "k = j")
      case True
      with False p(2) show ?thesis by (auto simp add: nth_append)
    next
      case False
      with that have "k < j" by simp
      with p(2) p(5) [of k] p(6) [of k] show ?thesis by (simp add: nth_append)
    qed
    moreover have "min (Suc j) (length files) = Suc (min j (length files))" using False by simp
    moreover have "need ?q \<le> B"
      using ret need_settles(2) [of B ?q] by (simp add: alwaysReturns_def taskSettles_def)
    ultimately show ?thesis
      unfolding step sp using p(2,3,4,7) by (simp add: Let_def)
  qed
qed

lemma start_inv:
  assumes ret: "alwaysReturns B handler"
  shows "poolInv files handler B (start files c handler s)"
    and "length (workers (start files c handler s)) = workerCount c (length files)"
    and "potential files B (start files c handler s) \<le> length files * (B + 1)"
proof -
  let ?j = "workerCount c (length files)"
  let ?p = "start files c handler s"
  from spawned [OF ret, where files = files and j = ?j and s = s]
  have p: "nextIndex ?p = ?j" "length (workers ?p) = ?j"
    "results ?p = replicate (length files) None" "rejection ?p = None"
    "\<And>k. k < ?j \<Longrightarrow> length files \<le> k \<Longrightarrow> workers ?p ! k = Done"
    "\<And>k. k < ?j \<Longrightarrow> k < length files \<Longrightarrow>
        \<exists>s'. workers ?p ! k = Awaiting k (fst (handler (files ! k) s'))"
    "sum_list (map cost (workers ?p)) \<le> min ?j (length files) * (B + 1)"
    by (simp_all add: Let_def start_def)
  have shape: "i = k \<and> k < length files \<and> (\<exists>s'. q = fst (handler (files ! k) s'))"
    if "k < ?j" "workers ?p ! k = Awaiting i q" for k i q
  proof (cases "k < length files")
    case True
    with p(6) [OF that(1)] that(2) show ?thesis by auto
  next
    case False
    with p(5) [OF that(1)] that(2) show ?thesis by simp
  qed
  show "length (workers ?p) = ?j" by (rule p(2))
  show "poolInv files handler B ?p"
  proof (rule poolInvI [where n = ?j and rs = "replicate (length files) None" and ws = "workers ?p"])
    show "workers ?p ! k \<noteq> Failed e" if "k < length (workers ?p)" for k e
      using that p(2) p(5) [of k] p(6) [of k] by (cases "k < length files") auto
    show "i < length files \<and> i < ?j \<and> replicate (length files) None ! i = None \<and>
          settlesWithin isOutcome B q \<and> (\<exists>s. evolves (fst (handler (files ! i) s)) q)"
      if "k < length (workers ?p)" "workers ?p ! k = Awaiting i q" for k i q
    proof -
      from that p(2) shape [of k i q] obtain s' where
        s': "i = k" "k < length files" "q = fst (handler (files ! k) s')" by auto
      have "settlesWithin isOutcome B q"
        using ret s'(3) by (simp add: alwaysReturns_def taskSettles_def)
      moreover have "evolves (fst (handler (files ! i) s')) q" using s' evolves.same by simp
      ultimately show ?thesis using s'(1,2) that(1) p(2) by auto
    qed
    show "k = k'"
      if "k < length (workers ?p)" "k' < length (workers ?p)"
         "workers ?p ! k = Awaiting i q" "workers ?p ! k' = Awaiting i q'" for k k' i q q'
      using that p(2) shape [of k i q] shape [of k' i q'] by simp
    show "replicate (length files) None ! i \<noteq> None \<or>
          (\<exists>k q. k < length (workers ?p) \<and> workers ?p ! k = Awaiting i q)"
      if "i < length files" "i < ?j" for i
      using that p(2) p(6) [of i] by auto
    show "i < ?j \<and> resultOf handler (files ! i) v"
      if "i < length files" "replicate (length files) None ! i = Some v" for i v
      using that by simp
    show "length files \<le> ?j" if "k < length (workers ?p)" "workers ?p ! k = Done" for k
      using that p(2) p(6) [of k] by (cases "k < length files") auto
  qed (simp_all add: p)
  have "min ?j (length files) * (B + 1) + (length files - min ?j (length files)) * (B + 1)
          = length files * (B + 1)"
    by (simp add: add_mult_distrib [symmetric])
  with p(1,7) show "potential files B ?p \<le> length files * (B + 1)"
    by (simp add: potential_def)
qed

subsection \<open>The results of the dispatcher\<close>

lemma settled_complete:
  assumes inv: "poolInv files handler B p" and w: "workers p \<noteq> []"
    and st: "settled p = Some r"
  shows "\<exists>rs. r = Inr rs \<and> rs = results p \<and> length rs = length files \<and>
              (\<forall>i<length files. \<exists>v. rs ! i = Some v \<and> resultOf handler (files ! i) v)"
proof -
  note D = poolInvD [OF inv]
  from st D(2) have pe: "pending p = []" and r: "r = Inr (results p)"
    by (simp_all add: settled_def split: if_splits)
  have noAwait: "workers p ! k \<noteq> Awaiting i q" if "k < length (workers p)" for k i q
    using pe that pending_mem [of k p] by auto
  from w have "0 < length (workers p)" by simp
  moreover have "workers p ! 0 = Done"
    using noAwait [of 0] D(3) [of 0] w by (cases "workers p ! 0") auto
  ultimately have n: "length files \<le> nextIndex p" by (rule D(8))
  have "\<exists>v. results p ! i = Some v \<and> resultOf handler (files ! i) v" if "i < length files" for i
  proof -
    from that n have "i < nextIndex p" by simp
    with D(6) [OF that] noAwait obtain v where v: "results p ! i = Some v" by blast
    with D(7) [OF that v] show ?thesis by simp
  qed
  with r D(1) show ?thesis by simp
qed

lemma start_length:
  "length (workers (start files c handler s)) = workerCount c (length files)"
proof -
  have "length (workers (fold (\<lambda>_. spawn files handler) [0..<j] p)) = length (workers p) + j"
    for j p
    by (induction j) (simp_all add: spawn_eq)
  then show ?thesis by (simp add: start_def)
qed

lemma pending_length: "length (pending p) \<le> length (workers p)"
  using length_filter_le [of "\<lambda>k. isAwaiting (workers p ! k)" "[0..<length (workers p)]"]
  by (simp add: pending_def)

lemma nameOf_alwaysReturns: "alwaysReturns 1 nameOf"
  by (simp add: alwaysReturns_def taskSettles_def nameOf_def awaitCall_def return_def)

lemma nameOf_result:
  assumes "resultOf (nameOf :: upfile \<Rightarrow> ('s, string) task) f v"
  shows "v = f_originalname f"
proof -
  from assms obtain s where
    "evolves (Await (\<lambda>s2 :: 's. (Ret (Inr (f_originalname f)), s2))) (Ret (Inr v))"
    by (auto simp add: resultOf_def nameOf_def awaitCall_def return_def)
  then have "evolves (Ret (Inr (f_originalname f)) :: ('s, string) proc) (Ret (Inr v))"
    by (cases rule: evolves.cases) simp_all
  then show ?thesis by (cases rule: evolves.cases) simp_all
qed

subsection \<open>Runs of the dispatcher and of the route on the example stores\<close>

lemma run_single:
  "uploadResumes cfgEx (saveCandidateFromFileAsync depsEx sbFresh cfgEx) [annFile]
       (firstFirst 32) idle =
     (Some (BulkBody 201
        \<lparr>b_message = ''Bulk upload finished successfully.'', totalFiles = 1,
         concurrencyUsed = 8, b_maxFilesPerRequest = Some 500,
         uploadedCount = 1, failedCount = 0,
         uploaded = [(''ann.pdf'', Some insertedAnn)], failed = []\<rparr>),
      afterAnn)"
  by code_simp

lemma run_serial:
  "uploadResumes cfgSerial (saveCandidateFromFileAsync depsFlaky sbFresh cfgSerial)
       [missingFile, annFile] (firstFirst 64) idle =
     (Some (BulkBody 207
        \<lparr>b_message = ''Bulk upload finished with partial failures.'', totalFiles = 2,
         concurrencyUsed = 1, b_maxFilesPerRequest = Some 500,
         uploadedCount = 1, failedCount = 1,
         uploaded = [(''ann.pdf'', Some insertedAnn)],
         failed = [(''bob.pdf'', ''ENOENT: no such file or directory'')]\<rparr>),
      afterAnn)"
  by code_simp

lemma run_twins_roundRobin:
  "processFilesWithConcurrency [annFile, annFile] 8
     (uploadHandler (saveCandidateFromFileAsync depsEx sbLive cfgEx)) (roundRobin 32) idle =
   (Some (Inr [Some (Uploaded ''ann.pdf'' (Some insertedAnn)),
               Some (NotUploaded ''ann.pdf'' ''Duplicate candidate is already being processed.'')]),
    afterAnn)"
  by code_simp

lemma run_twins_firstFirst:
  "processFilesWithConcurrency [annFile, annFile] 8
     (uploadHandler (saveCandidateFromFileAsync depsEx sbLive cfgEx)) (firstFirst 64) idle =
   (Some (Inr [Some (Uploaded ''ann.pdf'' (Some insertedAnn)),
               Some (NotUploaded ''ann.pdf'' ''Duplicate candidate skipped (matched by email).'')]),
    afterAnn\<lparr>world := world afterAnn @ [SelectEq EmailColumn ''ann@example.com'']\<rparr>)"
  by code_simp

lemma run_early:
  "fst (processFilesWithConcurrency [annFile] 8
     (uploadHandler (saveCandidateFromFileAsync depsEx sbFresh cfgEx)) (firstFirst 17) idle) = None"
  by code_simp

text \<open>Two copies of one resume in one batch, the workers taking turns one after the other:
  the second copy finds the keys of the first in flight.\<close>

lemma run_twins_route:
  "uploadResumes cfgEx (saveCandidateFromFileAsync depsEx sbFresh cfgEx) [annFile, annFile]
       (roundRobin 32) idle =
     (Some (BulkBody 207
        \<lparr>b_message = ''Bulk upload finished with partial failures.'', totalFiles = 2,
         concurrencyUsed = 8, b_maxFilesPerRequest = Some 500,
         uploadedCount = 1, failedCount = 1,
         uploaded = [(''ann.pdf'', Some insertedAnn)],
         failed = [(''ann.pdf'', ''Duplicate candidate is already being processed.'')]\<rparr>),
      afterAnn)"
  by code_simp

section \<open>Claims about the normalizer and the lock\<close>

text \<open>
  Claim C9. For every input string, \<open>normalizePhone\<close> removes every character that is not
  a digit; no digit left gives \<open>null\<close>; exactly 10 digits give \<open>+1\<close> followed by the
  digits; exactly 11 digits with a leading \<open>1\<close> give \<open>+\<close> followed by the digits; every
  other number of digits gives \<open>+\<close> followed by the digits. \<open>(555) 123-4567\<close> and
  \<open>555.123.4567\<close> both give \<open>+15551234567\<close>.
\<close>

theorem normalizePhone_cases:
  "(filter isDigit raw = [] \<longrightarrow> normalizePhone (Str raw) = None) \<and>
   (length (filter isDigit raw) = 10 \<longrightarrow>
      normalizePhone (Str raw) = Some (''+1'' @ filter isDigit raw)) \<and>
   (length (filter isDigit raw) = 11 \<and> hd (filter isDigit raw) = CHR ''1'' \<longrightarrow>
      normalizePhone (Str raw) = Some (''+'' @ filter isDigit raw)) \<and>
   (filter isDigit raw \<noteq> [] \<and> length (filter isDigit raw) \<noteq> 10 \<longrightarrow>
      normalizePhone (Str raw) = Some (''+'' @ filter isDigit raw)) \<and>
   normalizePhone (Str ''(555) 123-4567'') = Some ''+15551234567'' \<and>
   normalizePhone (Str ''555.123.4567'') = Some ''+15551234567''"
  by (auto simp: isDigit_def Let_def)

theorem normalizePhone_cases_witness:
  "filter isDigit ''n/a'' = [] \<and> normalizePhone (Str ''n/a'') = None \<and>
   length (filter isDigit ''555 123 4567'') = 10 \<and>
   normalizePhone (Str ''555 123 4567'') = Some ''+15551234567'' \<and>
   length (filter isDigit ''1-555-123-4567'') = 11 \<and> hd (filter isDigit ''1-555-123-4567'') = CHR ''1'' \<and>
   normalizePhone (Str ''1-555-123-4567'') = Some ''+15551234567'' \<and>
   filter isDigit ''44 20 7946'' \<noteq> [] \<and> length (filter isDigit ''44 20 7946'') \<noteq> 10 \<and>
   normalizePhone (Str ''44 20 7946'') = Some ''+44207946''"
proof -
  have d1: "filter isDigit ''n/a'' = []" by (simp add: isDigit_def)
  have d2: "filter isDigit ''555 123 4567'' = ''5551234567''" by (simp add: isDigit_def)
  have d3: "filter isDigit ''1-555-123-4567'' = ''15551234567''" by (simp add: isDigit_def)
  have d4: "filter isDigit ''44 20 7946'' = ''44207946''" by (simp add: isDigit_def)
  show ?thesis
    using normalizePhone_cases [of "''n/a''"] normalizePhone_cases [of "''555 123 4567''"]
      normalizePhone_cases [of "''1-555-123-4567''"] normalizePhone_cases [of "''44 20 7946''"]
    unfolding d1 d2 d3 d4 by simp
qed

text \<open>
  Claim C2. When a key of \<open>keys\<close> is already held, \<open>withDedupLock keys fn\<close> fails at once
  with the duplicate error whose \<open>matchBy\<close> is the part before the colon of a key of
  \<open>keys\<close> that is held (\<open>email\<close>, \<open>phone\<close> or \<open>hash\<close> for keys built by
  \<open>buildDedupKeys\<close>); the state, and with it the set of held keys, is the one before the
  call, and the result is the same for every operation: the operation is not run.
\<close>

theorem withDedupLock_collision:
  assumes "k \<in> set keys" and "k \<in> inFlightDedupKeys s"
  shows "\<exists>c. c \<in> set keys \<and> c \<in> inFlightDedupKeys s \<and>
           withDedupLock keys (fn :: 'w state \<Rightarrow> (error + 'a) \<times> 'w state) s =
             (Inl (DuplicateCandidateError ''Duplicate candidate is already being processed.''
                     \<lparr>d_candidate = None, d_matchBy = Some (takeWhile (\<lambda>x. x \<noteq> CHR '':'') c)\<rparr>), s) \<and>
           (\<forall>fn'. withDedupLock keys fn' s = withDedupLock keys fn s) \<and>
           (\<forall>e p h. keys = buildDedupKeys e p h \<longrightarrow>
              takeWhile (\<lambda>x. x \<noteq> CHR '':'') c \<in> {''email'', ''phone'', ''hash''})"
proof -
  from assms obtain c where c: "firstHeld (inFlightDedupKeys s) keys = Some c"
    using firstHeld_collision by blast
  then have mem: "c \<in> set keys \<and> c \<in> inFlightDedupKeys s"
    by (rule firstHeld_Some)
  have run: "withDedupLock keys g s = (Inl (duplicateInFlight c), s)"
    for g :: "'w state \<Rightarrow> (error + 'a) \<times> 'w state"
    using c by (simp add: withDedupLock_def)
  have pre: "\<forall>e p h. keys = buildDedupKeys e p h \<longrightarrow>
              takeWhile (\<lambda>x. x \<noteq> CHR '':'') c \<in> {''email'', ''phone'', ''hash''}"
    using mem matchBy_buildDedupKeys [of c] by (auto simp: matchByOfKey_def)
  show ?thesis
    using mem run pre by (intro exI [of _ c]) (simp add: duplicateInFlight_def matchByOfKey_def)
qed

theorem withDedupLock_collision_witness:
  "''hash:h'' \<in> set [''email:a@b.c'', ''hash:h''] \<and>
   ''hash:h'' \<in> inFlightDedupKeys \<lparr>inFlightDedupKeys = {''hash:h''}, world = [] :: call list\<rparr> \<and>
   withDedupLock [''email:a@b.c'', ''hash:h''] (return (0 :: nat))
       \<lparr>inFlightDedupKeys = {''hash:h''}, world = [] :: call list\<rparr> =
     (Inl (DuplicateCandidateError ''Duplicate candidate is already being processed.''
             \<lparr>d_candidate = None, d_matchBy = Some ''hash''\<rparr>),
      \<lparr>inFlightDedupKeys = {''hash:h''}, world = []\<rparr>)"
proof -
  let ?s = "\<lparr>inFlightDedupKeys = {''hash:h''}, world = [] :: call list\<rparr>"
  let ?keys = "[''email:a@b.c'', ''hash:h'']"
  have h1: "''hash:h'' \<in> set ?keys" by simp
  have h2: "''hash:h'' \<in> inFlightDedupKeys ?s" by simp
  from withDedupLock_collision [OF h1 h2, of "return (0 :: nat)"]
  obtain c where c: "c \<in> set ?keys" "c \<in> inFlightDedupKeys ?s"
    and r: "withDedupLock ?keys (return (0 :: nat)) ?s =
      (Inl (DuplicateCandidateError ''Duplicate candidate is already being processed.''
              \<lparr>d_candidate = None, d_matchBy = Some (takeWhile (\<lambda>x. x \<noteq> CHR '':'') c)\<rparr>), ?s)"
    by blast
  from c have "c = ''hash:h''" by simp
  with r h1 h2 show ?thesis by simp
qed

text \<open>
  Claim C3. When no key of \<open>keys\<close> is held, \<open>withDedupLock keys fn\<close> runs \<open>fn\<close> in a state
  where every key of \<open>keys\<close> is held and returns what \<open>fn\<close> returns or throws, and in the
  state after the call no key of \<open>keys\<close> is held. A call with the same keys that follows
  finds no key held and runs its operation. In every state that concurrent calls can reach,
  a held key belongs to a call that is inside its critical section at that moment, so a
  completed call never causes a rejection.
\<close>

theorem withDedupLock_free:
  fixes fn :: "'w state \<Rightarrow> (error + 'a) \<times> 'w state"
  assumes free: "set keys \<inter> inFlightDedupKeys s = {}"
    and run: "fn (s\<lparr>inFlightDedupKeys := inFlightDedupKeys s \<union> set keys\<rparr>) = (r, s2)"
  shows "withDedupLock keys fn s = (r, s2\<lparr>inFlightDedupKeys := inFlightDedupKeys s2 - set keys\<rparr>) \<and>
         set keys \<inter> inFlightDedupKeys (snd (withDedupLock keys fn s)) = {} \<and>
         (\<forall>fn2 :: 'w state \<Rightarrow> (error + 'a) \<times> 'w state.
            firstHeld (inFlightDedupKeys (snd (withDedupLock keys fn s))) keys = None \<and>
            fst (withDedupLock keys fn2 (snd (withDedupLock keys fn s))) =
              fst (fn2 ((snd (withDedupLock keys fn s))
                     \<lparr>inFlightDedupKeys := inFlightDedupKeys (snd (withDedupLock keys fn s)) \<union> set keys\<rparr>))) \<and>
         (\<forall>evs kss i c. i < length kss \<and>
            firstHeld (sys_held (runEvents evs (initialSystem kss))) (kss ! i) = Some c \<longrightarrow>
            (\<exists>j. inCS (runEvents evs (initialSystem kss)) j \<and> c \<in> set (kss ! j)))"
proof -
  have none: "firstHeld (inFlightDedupKeys s) keys = None"
    using free by (simp add: firstHeld_None)
  have eq: "withDedupLock keys fn s = (r, s2\<lparr>inFlightDedupKeys := inFlightDedupKeys s2 - set keys\<rparr>)"
    using none run by (simp add: withDedupLock_def addKeys_eq deleteKeys_eq)
  have after: "set keys \<inter> inFlightDedupKeys (snd (withDedupLock keys fn s)) = {}"
    by (auto simp: eq)
  then have none2: "firstHeld (inFlightDedupKeys (snd (withDedupLock keys fn s))) keys = None"
    by (simp add: firstHeld_None)
  have again: "fst (withDedupLock keys fn2 (snd (withDedupLock keys fn s))) =
              fst (fn2 ((snd (withDedupLock keys fn s))
                     \<lparr>inFlightDedupKeys := inFlightDedupKeys (snd (withDedupLock keys fn s)) \<union> set keys\<rparr>))"
    for fn2 :: "'w state \<Rightarrow> (error + 'a) \<times> 'w state"
    unfolding withDedupLock_def [of keys fn2] using none2
    by (simp add: addKeys_eq split: prod.splits)
  have live: "\<exists>j. inCS (runEvents evs (initialSystem kss)) j \<and> c \<in> set (kss ! j)"
    if "firstHeld (sys_held (runEvents evs (initialSystem kss))) (kss ! i) = Some c"
    for evs kss i c
  proof -
    from that have "c \<in> sys_held (runEvents evs (initialSystem kss))"
      using firstHeld_Some by blast
    then obtain j where j: "inCS (runEvents evs (initialSystem kss)) j"
        "c \<in> keysOf (runEvents evs (initialSystem kss)) j"
      using lockInv_reachable [of evs kss] unfolding lockInv_def by blast
    then show ?thesis using inCS_bound keysOf_reachable by blast
  qed
  from eq after none2 again live show ?thesis by blast
qed

theorem withDedupLock_free_witness:
  "set [''email:a@b.c'', ''hash:h''] \<inter> inFlightDedupKeys \<lparr>inFlightDedupKeys = {''hash:g''}, world = [] :: call list\<rparr> = {} \<and>
   withDedupLock [''email:a@b.c'', ''hash:h''] (throw (Error ''boom'') :: (call list state, nat) comp)
       \<lparr>inFlightDedupKeys = {''hash:g''}, world = []\<rparr> =
     (Inl (Error ''boom''), \<lparr>inFlightDedupKeys = {''hash:g''}, world = []\<rparr>) \<and>
   withDedupLock [''email:a@b.c'', ''hash:h''] (return 7 :: (call list state, nat) comp)
       \<lparr>inFlightDedupKeys = {''hash:g''}, world = []\<rparr> =
     (Inr 7, \<lparr>inFlightDedupKeys = {''hash:g''}, world = []\<rparr>)"
proof -
  let ?s = "\<lparr>inFlightDedupKeys = {''hash:g''}, world = [] :: call list\<rparr>"
  let ?keys = "[''email:a@b.c'', ''hash:h'']"
  let ?t = "?s\<lparr>inFlightDedupKeys := inFlightDedupKeys ?s \<union> set ?keys\<rparr>"
  have free: "set ?keys \<inter> inFlightDedupKeys ?s = {}" by simp
  have run1: "(throw (Error ''boom'') :: (call list state, nat) comp) ?t = (Inl (Error ''boom''), ?t)"
    by (simp add: throw_def)
  have run2: "(return 7 :: (call list state, nat) comp) ?t = (Inr 7, ?t)"
    by (simp add: return_def)
  have less: "?t\<lparr>inFlightDedupKeys := inFlightDedupKeys ?t - set ?keys\<rparr> = ?s" by simp
  show ?thesis
    using withDedupLock_free [of ?keys ?s "throw (Error ''boom'')" "Inl (Error ''boom'')" ?t, OF free run1]
      withDedupLock_free [of ?keys ?s "return 7" "Inr 7" ?t, OF free run2] free
    unfolding less by blast
qed

text \<open>
  Claim C10. With no keys, \<open>withDedupLock [] fn\<close> is \<open>fn\<close>: the operation always runs and no
  duplicate is raised. The \<open>/upload\<close> route builds its keys from email and phone only, so
  an upload whose email and phone both normalize to \<open>null\<close> has no keys, although a key
  from the content hash exists for every non-empty hash. Concurrent calls without keys
  all enter their critical sections: any such call that starts enters, and two of them are
  inside at the same time.
\<close>

theorem withDedupLock_no_keys:
  "withDedupLock [] fn s = fn s \<and>
   (normalizeEmail bodyEmail = None \<and> normalizePhone bodyPhone = None \<longrightarrow>
      uploadDedupKeys bodyEmail bodyPhone = []) \<and>
   (resumeHash \<noteq> [] \<longrightarrow>
      buildDedupKeys (normalizeEmail bodyEmail) (normalizePhone bodyPhone) (Some resumeHash) \<noteq> []) \<and>
   (i < length (sys_attempts sys) \<and> a_phase (sys_attempts sys ! i) = NotCalled \<and>
      a_keys (sys_attempts sys ! i) = [] \<longrightarrow> inCS (callStep i sys) i) \<and>
   (let sys2 = runEvents [Call 0, Call 1] (initialSystem [[], []])
    in inCS sys2 0 \<and> inCS sys2 1)"
proof -
  have a: "withDedupLock [] fn s = fn s"
    by (simp add: withDedupLock_def addKeys_def deleteKeys_def split: prod.splits)
  have b: "normalizeEmail bodyEmail = None \<and> normalizePhone bodyPhone = None \<longrightarrow>
      uploadDedupKeys bodyEmail bodyPhone = []"
    by (simp add: uploadDedupKeys_def buildDedupKeys_def List.map_filter_def)
  have c: "resumeHash \<noteq> [] \<longrightarrow>
      buildDedupKeys (normalizeEmail bodyEmail) (normalizePhone bodyPhone) (Some resumeHash) \<noteq> []"
  proof
    assume "resumeHash \<noteq> []"
    then have "''hash:'' @ resumeHash \<in>
        set (buildDedupKeys (normalizeEmail bodyEmail) (normalizePhone bodyPhone) (Some resumeHash))"
      by (simp add: set_buildDedupKeys)
    then show "buildDedupKeys (normalizeEmail bodyEmail) (normalizePhone bodyPhone) (Some resumeHash) \<noteq> []"
      by auto
  qed
  have d: "i < length (sys_attempts sys) \<and> a_phase (sys_attempts sys ! i) = NotCalled \<and>
      a_keys (sys_attempts sys ! i) = [] \<longrightarrow> inCS (callStep i sys) i"
    by (simp add: callStep_def inCS_def nth_setPhase)
  have e: "let sys2 = runEvents [Call 0, Call 1] (initialSystem [[], []])
    in inCS sys2 0 \<and> inCS sys2 1"
    by (simp add: runEvents_def initialSystem_def callStep_def setPhase_def inCS_def addKeys_def)
  from a b c d e show ?thesis by blast
qed

theorem withDedupLock_no_keys_witness:
  "normalizeEmail Undefined = None \<and> normalizePhone (Str ''n/a'') = None \<and>
   uploadDedupKeys Undefined (Str ''n/a'') = [] \<and>
   ''9f2c'' \<noteq> [] \<and>
   buildDedupKeys (normalizeEmail Undefined) (normalizePhone (Str ''n/a'')) (Some ''9f2c'') \<noteq> [] \<and>
   inCS (callStep 0 (initialSystem [uploadDedupKeys Undefined (Str ''n/a'')])) 0"
proof -
  have n: "normalizeEmail Undefined = None \<and> normalizePhone (Str ''n/a'') = None"
    by (simp add: isDigit_def)
  have k: "uploadDedupKeys Undefined (Str ''n/a'') = []"
    using withDedupLock_no_keys [of _ _ Undefined "Str ''n/a''"] n by blast
  have pre: "0 < length (sys_attempts (initialSystem [[]])) \<and>
      a_phase (sys_attempts (initialSystem [[]]) ! 0) = NotCalled \<and>
      a_keys (sys_attempts (initialSystem [[]]) ! 0) = []"
    by (simp add: initialSystem_def)
  have "inCS (callStep 0 (initialSystem [[]])) 0"
    using withDedupLock_no_keys [of _ _ _ _ _ 0 "initialSystem [[]]"] pre by blast
  moreover have "buildDedupKeys (normalizeEmail Undefined) (normalizePhone (Str ''n/a'')) (Some ''9f2c'') \<noteq> []"
    using withDedupLock_no_keys [of _ _ Undefined "Str ''n/a''" "''9f2c''"] by blast
  ultimately show ?thesis using n k by simp
qed

text \<open>
  Claim C1. In every state that concurrent calls of \<open>withDedupLock\<close> can reach from the
  empty set of held keys, two different calls whose key lists share a key are never both
  inside their critical sections, and every held key belongs to exactly one call that is
  inside its critical section. The check of the keys and their marking are one atomic step
  of the model because the source has no \<open>await\<close> between them.
\<close>

theorem dedup_mutual_exclusion:
  "let sys = runEvents evs (initialSystem kss)
   in (\<forall>i j. i \<noteq> j \<and> i < length kss \<and> j < length kss \<and> set (kss ! i) \<inter> set (kss ! j) \<noteq> {}
         \<longrightarrow> \<not> (inCS sys i \<and> inCS sys j)) \<and>
      (\<forall>k \<in> sys_held sys. \<exists>!i. inCS sys i \<and> k \<in> set (kss ! i))"
proof -
  let ?sys = "runEvents evs (initialSystem kss)"
  have inv: "lockInv ?sys" by (rule lockInv_reachable)
  have a: "\<not> (inCS ?sys i \<and> inCS ?sys j)"
    if "i \<noteq> j" "i < length kss" "j < length kss" "set (kss ! i) \<inter> set (kss ! j) \<noteq> {}" for i j
    using inv that unfolding lockInv_def by (metis keysOf_reachable)
  have b: "\<exists>!i. inCS ?sys i \<and> k \<in> set (kss ! i)" if k: "k \<in> sys_held ?sys" for k
  proof -
    from inv k obtain i where i: "inCS ?sys i" "k \<in> keysOf ?sys i"
      unfolding lockInv_def by blast
    then have ik: "k \<in> set (kss ! i)" using inCS_bound keysOf_reachable by blast
    have "j = i" if "inCS ?sys j" "k \<in> set (kss ! j)" for j
    proof (rule ccontr)
      assume "j \<noteq> i"
      moreover have "k \<in> keysOf ?sys j" using that inCS_bound keysOf_reachable by blast
      ultimately show False using inv i that(1) unfolding lockInv_def by blast
    qed
    with i(1) ik show ?thesis by blast
  qed
  show ?thesis unfolding Let_def using a b by blast
qed

theorem dedup_mutual_exclusion_witness:
  "let kss = [[''email:a@b.c'', ''hash:h''], [''hash:h'', ''phone:+15551234567'']];
       sys = runEvents [Call 0, Call 1] (initialSystem kss)
   in set (kss ! 0) \<inter> set (kss ! 1) \<noteq> {} \<and> inCS sys 0 \<and> \<not> inCS sys 1 \<and>
      sys_held sys = {''email:a@b.c'', ''hash:h''}"
proof -
  let ?kss = "[[''email:a@b.c'', ''hash:h''], [''hash:h'', ''phone:+15551234567'']]"
  let ?sys = "runEvents [Call 0, Call 1] (initialSystem ?kss)"
  have share: "set (?kss ! 0) \<inter> set (?kss ! 1) \<noteq> {}" by simp
  have in0: "inCS ?sys 0"
    by (simp add: runEvents_def initialSystem_def callStep_def setPhase_def inCS_def addKeys_def)
  have hd: "sys_held ?sys = {''email:a@b.c'', ''hash:h''}"
    by (auto simp: runEvents_def initialSystem_def callStep_def setPhase_def addKeys_def)
  have "\<not> (inCS ?sys 0 \<and> inCS ?sys 1)"
    using dedup_mutual_exclusion [of "[Call 0, Call 1]" ?kss] share
    unfolding Let_def by (metis One_nat_def length_Cons lessI list.size(3) zero_less_Suc zero_neq_one)
  with share in0 hd show ?thesis unfolding Let_def by blast
qed


section \<open>Claims about the finder and the pipeline\<close>

text \<open>
  Claim C8. \<open>findExistingCandidate\<close> asks the store by email, then by phone, then by
  resume URL, and returns the first row found with the dimension that matched (\<open>email\<close>,
  \<open>phone\<close> or \<open>resume\<close>). A \<open>null\<close> (or empty) input is skipped and no query is made for
  it: the history after the call holds the queries for the other inputs only, up to the
  first hit, and every query it has added is for an input that is not \<open>null\<close>. No match at
  all returns \<open>null\<close>. The finder raises an error only when the store fails one of its
  queries.
\<close>

theorem findExistingCandidate_order:
  "let l1 = afterQuery log EmailColumn email;
       l2 = afterQuery l1 PhoneColumn phone;
       l3 = afterQuery l2 ResumeUrlColumn resumeUrl;
       h1 = queryHit sb log EmailColumn email;
       h2 = queryHit sb l1 PhoneColumn phone;
       h3 = queryHit sb l2 ResumeUrlColumn resumeUrl;
       e1 = queryFails sb log EmailColumn email;
       e2 = queryFails sb l1 PhoneColumn phone;
       e3 = queryFails sb l2 ResumeUrlColumn resumeUrl;
       r = findExistingCandidate sb email phone resumeUrl log
   in (\<not> e1 \<and> h1 = Some c \<longrightarrow>
         r = (Inr (Some \<lparr>f_candidate = c, f_matchBy = ''email''\<rparr>), l1)) \<and>
      (\<not> e1 \<and> h1 = None \<and> \<not> e2 \<and> h2 = Some c \<longrightarrow>
         r = (Inr (Some \<lparr>f_candidate = c, f_matchBy = ''phone''\<rparr>), l2)) \<and>
      (\<not> e1 \<and> h1 = None \<and> \<not> e2 \<and> h2 = None \<and> \<not> e3 \<and> h3 = Some c \<longrightarrow>
         r = (Inr (Some \<lparr>f_candidate = c, f_matchBy = ''resume''\<rparr>), l3)) \<and>
      (\<not> e1 \<and> h1 = None \<and> \<not> e2 \<and> h2 = None \<and> \<not> e3 \<and> h3 = None \<longrightarrow>
         r = (Inr None, l3)) \<and>
      (orNull email = None \<and> orNull phone = None \<and> orNull resumeUrl = None \<longrightarrow>
         r = (Inr None, log)) \<and>
      (\<forall>err. fst r = Inl err \<longrightarrow> e1 \<or> e2 \<or> e3) \<and>
      (\<forall>col x. SelectEq col x \<in> set (drop (length log) (snd r)) \<longrightarrow>
         (col = EmailColumn \<and> orNull email = Some x) \<or>
         (col = PhoneColumn \<and> orNull phone = Some x) \<or>
         (col = ResumeUrlColumn \<and> orNull resumeUrl = Some x))"
proof -
  have queries: "\<forall>col x.
      SelectEq col x \<in> set (drop (length log) (snd (findExistingCandidate sb email phone resumeUrl log))) \<longrightarrow>
         (col = EmailColumn \<and> orNull email = Some x) \<or>
         (col = PhoneColumn \<and> orNull phone = Some x) \<or>
         (col = ResumeUrlColumn \<and> orNull resumeUrl = Some x)"
    using finder_queries by blast
  show ?thesis
    unfolding Let_def
    apply (intro conjI queries)
    unfolding findExistingCandidate_def queryCandidateByEmail_def
      queryCandidateByPhone_def queryCandidateByResumeUrl_def
    by (auto simp: bind_def return_def queryCandidateBy_eq queryHit_def queryFails_def
        afterQuery_def split: option.splits)
qed

theorem findExistingCandidate_order_witness:
  "findExistingCandidate sbPhoneKnown (Some ''ann@example.com'') (Some ''+15551234567'') None [] =
     (Inr (Some \<lparr>f_candidate = storedAnn, f_matchBy = ''phone''\<rparr>),
      [SelectEq EmailColumn ''ann@example.com'', SelectEq PhoneColumn ''+15551234567'']) \<and>
   findExistingCandidate sbFresh (Some ''ann@example.com'') None (Some ''https://store/resumes/uploads/9f2c.pdf'') [] =
     (Inr None,
      [SelectEq EmailColumn ''ann@example.com'',
       SelectEq ResumeUrlColumn ''https://store/resumes/uploads/9f2c.pdf''])"
proof -
  have a: "findExistingCandidate sbPhoneKnown (Some ''ann@example.com'') (Some ''+15551234567'') None [] =
     (Inr (Some \<lparr>f_candidate = storedAnn, f_matchBy = ''phone''\<rparr>),
      [SelectEq EmailColumn ''ann@example.com'', SelectEq PhoneColumn ''+15551234567''])"
    using findExistingCandidate_order [of "[]" "Some ''ann@example.com''" "Some ''+15551234567''"
        None sbPhoneKnown storedAnn]
    by (simp add: Let_def afterQuery_def queryHit_def queryFails_def sbPhoneKnown_def sbFresh_def
        noRows_def rows_def firstRow_def)
  have b: "findExistingCandidate sbFresh (Some ''ann@example.com'') None (Some ''https://store/resumes/uploads/9f2c.pdf'') [] =
     (Inr None,
      [SelectEq EmailColumn ''ann@example.com'',
       SelectEq ResumeUrlColumn ''https://store/resumes/uploads/9f2c.pdf''])"
    using findExistingCandidate_order [of "[]" "Some ''ann@example.com''" None
        "Some ''https://store/resumes/uploads/9f2c.pdf''" sbFresh storedAnn]
    by (simp add: Let_def afterQuery_def queryHit_def queryFails_def sbFresh_def
        noRows_def firstRow_def)
  from a b show ?thesis by blast
qed


text \<open>
  Claim C6, as stated, fails: the insert of \<open>annFile\<close> into \<open>sbConflict\<close> is rejected with
  code \<open>23505\<close>, the finder run after it finds no row, and the duplicate error that is raised
  carries neither a record nor a matched dimension.
\<close>

theorem insert_conflict_counterexample:
  "ir_error (insertCandidate sbConflict annUploaded annPayload) = Some uniqueViolation \<and>
   e_code uniqueViolation = Some ''23505'' \<and>
   saveCandidateFromFile depsEx sbConflict cfgEx annFile idle =
     (Inl (DuplicateCandidateError ''Duplicate candidate skipped (matched by constraint).''
             \<lparr>d_candidate = None, d_matchBy = None\<rparr>),
      \<lparr>inFlightDedupKeys = {}, world = annUploaded @ [InsertCandidate annPayload] @ annQueries\<rparr>)"
  by (simp add: run_sbConflict) (simp add: sbConflict_def uniqueViolation_def)

text \<open>
  Claim C6, amended. When the store rejects the insert with code \<open>23505\<close>, the pipeline runs
  the finder again with the payload's email and phone and the resume URL. If the finder
  returns a record, a duplicate error with that record and its matched dimension is
  raised; if it returns none, a duplicate error with empty details (message
  \<open>matched by constraint\<close>) is raised; if one of its queries fails, that error is raised.
  An insert that fails with any other error raises the generic error
  \<open>Failed to save candidate in database\<close>, which is not a duplicate.
\<close>

theorem insert_conflict:
  assumes "ir_error (insertCandidate sb log p) = Some err"
  shows "(e_code err = Some ''23505'' \<longrightarrow>
            (case findExistingCandidate sb (p_email p) (p_phone p) resumeUrl
                    (log @ [InsertCandidate p]) of
               (Inr (Some f), l) \<Rightarrow>
                 insertAndResolve sb p resumeUrl log =
                   (Inl (DuplicateCandidateError
                           (''Duplicate candidate skipped (matched by '' @ f_matchBy f @ '').'')
                           \<lparr>d_candidate = Some (f_candidate f), d_matchBy = Some (f_matchBy f)\<rparr>), l)
             | (Inr None, l) \<Rightarrow>
                 insertAndResolve sb p resumeUrl log =
                   (Inl (DuplicateCandidateError
                           ''Duplicate candidate skipped (matched by constraint).''
                           \<lparr>d_candidate = None, d_matchBy = None\<rparr>), l)
             | (Inl e, l) \<Rightarrow> insertAndResolve sb p resumeUrl log = (Inl e, l))) \<and>
         (e_code err \<noteq> Some ''23505'' \<longrightarrow>
            insertAndResolve sb p resumeUrl log =
              (Inl (Error (''Failed to save candidate in database: '' @ textOf (e_message err))),
               log @ [InsertCandidate p]) \<and>
            \<not> isDuplicate (Error (''Failed to save candidate in database: '' @ textOf (e_message err))))"
  using assms
  by (auto simp: insertAndResolve_def afterInsert_def insertRow_def bind_def throw_def
      isUniqueViolation_def detailsOfFound_def emptyDetails_def
      split: prod.splits sum.splits option.splits)

theorem insert_conflict_witness:
  "ir_error (insertCandidate sbLostRace annUploaded annPayload) = Some uniqueViolation \<and>
   insertAndResolve sbLostRace annPayload (p_resume_url annPayload) annUploaded =
     (Inl (DuplicateCandidateError ''Duplicate candidate skipped (matched by email).''
             \<lparr>d_candidate = Some storedAnn, d_matchBy = Some ''email''\<rparr>),
      annUploaded @ [InsertCandidate annPayload, SelectEq EmailColumn ''ann@example.com'']) \<and>
   ir_error (insertCandidate sbConflict annUploaded annPayload) = Some uniqueViolation \<and>
   insertAndResolve sbConflict annPayload (p_resume_url annPayload) annUploaded =
     (Inl (DuplicateCandidateError ''Duplicate candidate skipped (matched by constraint).''
             \<lparr>d_candidate = None, d_matchBy = None\<rparr>),
      annUploaded @ [InsertCandidate annPayload] @ annQueries) \<and>
   ir_error (insertCandidate sbDenied annUploaded annPayload) = Some permissionDenied \<and>
   insertAndResolve sbDenied annPayload (p_resume_url annPayload) annUploaded =
     (Inl (Error ''Failed to save candidate in database: permission denied for table candidates''),
      annUploaded @ [InsertCandidate annPayload])"
proof -
  have h1: "ir_error (insertCandidate sbLostRace annUploaded annPayload) = Some uniqueViolation"
    by (simp add: sbLostRace_def sbConflict_def)
  have h2: "ir_error (insertCandidate sbConflict annUploaded annPayload) = Some uniqueViolation"
    by (simp add: sbConflict_def)
  have h3: "ir_error (insertCandidate sbDenied annUploaded annPayload) = Some permissionDenied"
    by (simp add: sbDenied_def)
  have c: "e_code uniqueViolation = Some ''23505''" by (simp add: uniqueViolation_def)
  have d: "e_code permissionDenied \<noteq> Some ''23505''"
    "e_message permissionDenied = Some ''permission denied for table candidates''"
    by (simp_all add: permissionDenied_def)
  have f1: "findExistingCandidate sbLostRace (p_email annPayload) (p_phone annPayload)
             (p_resume_url annPayload) (annUploaded @ [InsertCandidate annPayload]) =
           (Inr (Some \<lparr>f_candidate = storedAnn, f_matchBy = ''email''\<rparr>),
            annUploaded @ [InsertCandidate annPayload, SelectEq EmailColumn ''ann@example.com''])"
    by code_simp
  have f2: "findExistingCandidate sbConflict (p_email annPayload) (p_phone annPayload)
             (p_resume_url annPayload) (annUploaded @ [InsertCandidate annPayload]) =
           (Inr None, annUploaded @ [InsertCandidate annPayload] @ annQueries)"
    by code_simp
  have r1: "insertAndResolve sbLostRace annPayload (p_resume_url annPayload) annUploaded =
     (Inl (DuplicateCandidateError ''Duplicate candidate skipped (matched by email).''
             \<lparr>d_candidate = Some storedAnn, d_matchBy = Some ''email''\<rparr>),
      annUploaded @ [InsertCandidate annPayload, SelectEq EmailColumn ''ann@example.com''])"
    using insert_conflict [OF h1, of "p_resume_url annPayload"] c f1 by simp
  have r2: "insertAndResolve sbConflict annPayload (p_resume_url annPayload) annUploaded =
     (Inl (DuplicateCandidateError ''Duplicate candidate skipped (matched by constraint).''
             \<lparr>d_candidate = None, d_matchBy = None\<rparr>),
      annUploaded @ [InsertCandidate annPayload] @ annQueries)"
    using insert_conflict [OF h2, of "p_resume_url annPayload"] c f2 by simp
  have r3: "insertAndResolve sbDenied annPayload (p_resume_url annPayload) annUploaded =
     (Inl (Error ''Failed to save candidate in database: permission denied for table candidates''),
      annUploaded @ [InsertCandidate annPayload])"
    using insert_conflict [OF h3, of "p_resume_url annPayload"] d by simp
  from h1 h2 h3 r1 r2 r3 show ?thesis by blast
qed

text \<open>
  Claim C7, as stated, fails. In \<open>sbRaceExists\<close> the blob store answers the upload of
  \<open>annFile\<close> with status 409, and the attempt fails as a duplicate found by the check that
  the pipeline makes only after such an answer. In \<open>sbOutageExists\<close> the same answer makes
  the attempt fail on a query of that check, while in \<open>sbOutage\<close>, which differs in the
  answer to the upload only, the attempt succeeds.
\<close>

theorem upload_conflict_counterexample:
  "storageUpload sbRaceExists annQueries ''resumes'' ''uploads/9f2c.pdf'' ''%PDF-1.4 ann lee'' =
     Some alreadyExists \<and>
   isStorageAlreadyExistsError (Some alreadyExists) \<and>
   saveCandidateFromFile depsEx sbRaceExists cfgEx annFile idle =
     (Inl (DuplicateCandidateError ''Duplicate candidate skipped (matched by resume).''
             \<lparr>d_candidate = Some storedAnn, d_matchBy = Some ''resume''\<rparr>),
      \<lparr>inFlightDedupKeys = {}, world = annUploaded @ annQueries\<rparr>) \<and>
   storageUpload sbOutageExists annQueries ''resumes'' ''uploads/9f2c.pdf'' ''%PDF-1.4 ann lee'' =
     Some alreadyExists \<and>
   saveCandidateFromFile depsEx sbOutageExists cfgEx annFile idle =
     (Inl (Error ''Failed duplicate check by email: upstream request timeout''),
      \<lparr>inFlightDedupKeys = {}, world = annUploaded @ [SelectEq EmailColumn ''ann@example.com'']\<rparr>) \<and>
   storageUpload sbOutage annQueries ''resumes'' ''uploads/9f2c.pdf'' ''%PDF-1.4 ann lee'' = None \<and>
   saveCandidateFromFile depsEx sbOutage cfgEx annFile idle =
     (Inr (Some insertedAnn),
      \<lparr>inFlightDedupKeys = {}, world = annUploaded @ [InsertCandidate annPayload]\<rparr>)"
proof -
  have "isStorageAlreadyExistsError (Some alreadyExists)"
    by (simp add: isStorageAlreadyExistsError_def alreadyExists_def)
  moreover have "storageUpload sbRaceExists annQueries ''resumes'' ''uploads/9f2c.pdf'' ''%PDF-1.4 ann lee'' =
     Some alreadyExists"
    by (simp add: sbRaceExists_def)
  moreover have "storageUpload sbOutageExists annQueries ''resumes'' ''uploads/9f2c.pdf'' ''%PDF-1.4 ann lee'' =
     Some alreadyExists"
    by (simp add: sbOutageExists_def)
  moreover have "storageUpload sbOutage annQueries ''resumes'' ''uploads/9f2c.pdf'' ''%PDF-1.4 ann lee'' = None"
    by (simp add: sbOutage_def sbFresh_def)
  ultimately show ?thesis by (simp add: run_sbRaceExists run_sbOutageExists run_sbOutage)
qed

text \<open>
  Claim C7, amended. A storage error with status code 409 or with a message that contains
  \<open>already exists\<close> (in any letter case) is not raised as a storage failure: the pipeline
  runs the finder again; if it returns a record the attempt is rejected as a duplicate of
  that record, if one of its queries fails that error is raised, and otherwise the attempt
  goes on to the insert exactly as after a successful upload. Every other storage error
  raises \<open>Failed to upload resume to Supabase Storage\<close> and no insert is made.
\<close>

theorem upload_conflict:
  "isStorageAlreadyExistsError (Some e) =
     (e_statusCode e = Some 409 \<or>
      includesStr (toLowerCase (case e_message e of None \<Rightarrow> [] | Some m \<Rightarrow> m)) ''already exists'') \<and>
   (\<not> isStorageAlreadyExistsError (Some e) \<longrightarrow>
      afterUpload sb p resumeUrl (Some e) log =
        (Inl (Error (''Failed to upload resume to Supabase Storage: '' @ textOf (e_message e))), log)) \<and>
   (isStorageAlreadyExistsError (Some e) \<longrightarrow>
      afterUpload sb p resumeUrl (Some e) log =
        (case findExistingCandidate sb (p_email p) (p_phone p) resumeUrl log of
           (Inr (Some f), l) \<Rightarrow>
             (Inl (DuplicateCandidateError
                     (''Duplicate candidate skipped (matched by '' @ f_matchBy f @ '').'')
                     \<lparr>d_candidate = Some (f_candidate f), d_matchBy = Some (f_matchBy f)\<rparr>), l)
         | (Inr None, l) \<Rightarrow> insertAndResolve sb p resumeUrl l
         | (Inl err, l) \<Rightarrow> (Inl err, l))) \<and>
   afterUpload sb p resumeUrl None log = insertAndResolve sb p resumeUrl log"
  by (auto simp: afterUpload_def bind_def throw_def return_def rejectIfFound_def
      duplicateSkipped_def detailsOfFound_def isStorageAlreadyExistsError_def Let_def
      split: prod.splits sum.splits option.splits)

theorem upload_conflict_witness:
  "isStorageAlreadyExistsError (Some alreadyExists) \<and>
   afterUpload sbFresh annPayload (p_resume_url annPayload) (Some alreadyExists) annUploaded =
     (Inr (Some insertedAnn), annUploaded @ annQueries @ [InsertCandidate annPayload]) \<and>
   \<not> isStorageAlreadyExistsError (Some bucketMissing) \<and>
   afterUpload sbFresh annPayload (p_resume_url annPayload) (Some bucketMissing) annUploaded =
     (Inl (Error ''Failed to upload resume to Supabase Storage: Bucket not found''), annUploaded)"
proof -
  have a: "isStorageAlreadyExistsError (Some alreadyExists)"
    by (simp add: isStorageAlreadyExistsError_def alreadyExists_def)
  have b: "\<not> isStorageAlreadyExistsError (Some bucketMissing)"
    by code_simp
  have m: "e_message bucketMissing = Some ''Bucket not found''"
    by (simp add: bucketMissing_def)
  have f: "findExistingCandidate sbFresh (p_email annPayload) (p_phone annPayload)
             (p_resume_url annPayload) annUploaded = (Inr None, annUploaded @ annQueries)"
    by code_simp
  have i: "insertAndResolve sbFresh annPayload (p_resume_url annPayload) (annUploaded @ annQueries) =
      (Inr (Some insertedAnn), annUploaded @ annQueries @ [InsertCandidate annPayload])"
    by code_simp
  have r1: "afterUpload sbFresh annPayload (p_resume_url annPayload) (Some alreadyExists) annUploaded =
     (Inr (Some insertedAnn), annUploaded @ annQueries @ [InsertCandidate annPayload])"
    using upload_conflict [of alreadyExists sbFresh annPayload "p_resume_url annPayload" annUploaded]
      a f i by simp
  have r2: "afterUpload sbFresh annPayload (p_resume_url annPayload) (Some bucketMissing) annUploaded =
     (Inl (Error ''Failed to upload resume to Supabase Storage: Bucket not found''), annUploaded)"
    using upload_conflict [of bucketMissing sbFresh annPayload "p_resume_url annPayload" annUploaded]
      b m by simp
  from a b r1 r2 show ?thesis by blast
qed


section \<open>Claims about the dispatcher and the batch route\<close>

text \<open>
  Claim C4. For every list of \<open>N\<close> files, every whole-number limit and every handler that
  always returns an outcome, within some number \<open>B\<close> of turns (the handler of the batch route
  is one, with 31 turns, whatever the pipeline does): the number of workers is at least 1
  and at most \<open>max 1 N\<close>, that is at most \<open>N\<close> for a list that is not empty; under every
  schedule of the event loop that number of workers exists at every moment, so no more
  files than that are being handled at once. Under every schedule with \<open>N * (B + 1)\<close> turns
  the call has returned; it never rejects; and whenever it has returned, it has returned
  exactly \<open>N\<close> outcomes, the \<open>i\<close>-th of which is a result of the call of the handler for
  the \<open>i\<close>-th file. For a handler whose result depends on the file only, the outcomes are
  the handler mapped over the files. An outcome that reports a failure is a value like any
  other and stops nothing. The handlers run interleaved, so the result of a stateful handler
  for a file depends on the schedule, as the witness shows for two copies of one resume.
\<close>

theorem processFiles_outcomes:
  fixes handler :: "'f \<Rightarrow> ('s, 'o) task"
  assumes ret: "alwaysReturns B handler"
  shows "1 \<le> workerCount concurrency (length files) \<and>
         workerCount concurrency (length files) \<le> max 1 (length files) \<and>
         (files \<noteq> [] \<longrightarrow> workerCount concurrency (length files) \<le> length files) \<and>
         length (workers (runPool files handler sched (start files concurrency handler s0))) =
           workerCount concurrency (length files) \<and>
         length (pending (runPool files handler sched (start files concurrency handler s0))) \<le>
           workerCount concurrency (length files) \<and>
         (length files * (B + 1) \<le> length sched \<longrightarrow>
            (\<exists>rs. fst (processFilesWithConcurrency files concurrency handler sched s0) =
                     Some (Inr rs))) \<and>
         (\<forall>e. fst (processFilesWithConcurrency files concurrency handler sched s0) \<noteq>
                 Some (Inl e)) \<and>
         (\<forall>rs. fst (processFilesWithConcurrency files concurrency handler sched s0) =
                  Some (Inr rs) \<longrightarrow>
            length rs = length files \<and>
            (\<forall>i < length files. \<exists>v. rs ! i = Some v \<and> resultOf handler (files ! i) v)) \<and>
         (\<forall>g. (\<forall>f v. resultOf handler f v \<longrightarrow> v = g f) \<longrightarrow>
            (\<forall>rs. fst (processFilesWithConcurrency files concurrency handler sched s0) =
                     Some (Inr rs) \<longrightarrow>
               rs = map (\<lambda>f. Some (g f)) files))"
proof -
  let ?p = "runPool files handler sched (start files concurrency handler s0)"
  let ?r = "fst (processFilesWithConcurrency files concurrency handler sched s0)"
  note S = start_inv [OF ret, where files = files and c = concurrency and s = s0]
  from runPool_inv [OF ret S(1), of sched] S(2)
  have inv: "poolInv files handler B ?p"
    and len: "length (workers ?p) = workerCount concurrency (length files)" by simp_all
  have wc: "1 \<le> workerCount concurrency (length files)"
    "workerCount concurrency (length files) \<le> max 1 (length files)"
    "files \<noteq> [] \<longrightarrow> workerCount concurrency (length files) \<le> length files"
    using workerCount_bounds [where c = concurrency and n = "length files"] by simp_all
  from len wc(1) have ne: "workers ?p \<noteq> []" by auto
  have r: "?r = settled ?p" by (simp add: processFilesWithConcurrency_def Let_def)
  have rej: "rejection ?p = None" using inv by (rule poolInvD(2))
  have pl: "length (pending ?p) \<le> workerCount concurrency (length files)"
    using pending_length [of ?p] len by simp
  have fin: "\<exists>rs. ?r = Some (Inr rs)" if "length files * (B + 1) \<le> length sched"
  proof -
    from S(3) that have "potential files B (start files concurrency handler s0) \<le> length sched"
      by simp
    with runPool_finishes [OF ret S(1)] have "pending ?p = []" by blast
    with rej r show ?thesis by (simp add: settled_def)
  qed
  have noRej: "?r \<noteq> Some (Inl e)" for e
    using r rej by (simp add: settled_def)
  have complete: "length rs = length files \<and>
                  (\<forall>i < length files. \<exists>v. rs ! i = Some v \<and> resultOf handler (files ! i) v)"
    if "?r = Some (Inr rs)" for rs
  proof -
    from that r have "settled ?p = Some (Inr rs)" by simp
    from settled_complete [OF inv ne this] show ?thesis by blast
  qed
  have mapped: "rs = map (\<lambda>f. Some (g f)) files"
    if g: "\<forall>f v. resultOf handler f v \<longrightarrow> v = g f" and rs: "?r = Some (Inr rs)" for g rs
  proof (rule nth_equalityI)
    show "length rs = length (map (\<lambda>f. Some (g f)) files)" using complete [OF rs] by simp
  next
    fix i assume "i < length rs"
    with complete [OF rs] have i: "i < length files" by simp
    with complete [OF rs] obtain v where "rs ! i = Some v" "resultOf handler (files ! i) v"
      by blast
    with g i show "rs ! i = map (\<lambda>f. Some (g f)) files ! i" by simp
  qed
  from wc len pl fin noRej complete mapped show ?thesis by blast
qed

theorem processFiles_outcomes_witness:
  "alwaysReturns 31 (uploadHandler (saveCandidateFromFileAsync depsEx sbLive cfgEx)) \<and>
   length [annFile, annFile] * (31 + 1) \<le> length (roundRobin 32) \<and>
   length [annFile, annFile] * (31 + 1) \<le> length (firstFirst 64) \<and>
   workerCount 8 (length [annFile, annFile]) = 2 \<and>
   processFilesWithConcurrency [annFile, annFile] 8
     (uploadHandler (saveCandidateFromFileAsync depsEx sbLive cfgEx)) (roundRobin 32) idle =
   (Some (Inr [Some (Uploaded ''ann.pdf'' (Some insertedAnn)),
               Some (NotUploaded ''ann.pdf'' ''Duplicate candidate is already being processed.'')]),
    afterAnn) \<and>
   processFilesWithConcurrency [annFile, annFile] 8
     (uploadHandler (saveCandidateFromFileAsync depsEx sbLive cfgEx)) (firstFirst 64) idle =
   (Some (Inr [Some (Uploaded ''ann.pdf'' (Some insertedAnn)),
               Some (NotUploaded ''ann.pdf'' ''Duplicate candidate skipped (matched by email).'')]),
    afterAnn\<lparr>world := world afterAnn @ [SelectEq EmailColumn ''ann@example.com'']\<rparr>) \<and>
   resultOf (uploadHandler (saveCandidateFromFileAsync depsEx sbLive cfgEx)) annFile
     (Uploaded ''ann.pdf'' (Some insertedAnn)) \<and>
   resultOf (uploadHandler (saveCandidateFromFileAsync depsEx sbLive cfgEx)) annFile
     (NotUploaded ''ann.pdf'' ''Duplicate candidate is already being processed.'') \<and>
   resultOf (uploadHandler (saveCandidateFromFileAsync depsEx sbLive cfgEx)) annFile
     (NotUploaded ''ann.pdf'' ''Duplicate candidate skipped (matched by email).'') \<and>
   alwaysReturns 1 (nameOf :: upfile \<Rightarrow> (call list state, string) task) \<and>
   fst (processFilesWithConcurrency [missingFile, annFile] 1 nameOf (firstFirst 4) idle) =
     Some (Inr [Some ''bob.pdf'', Some ''ann.pdf''])"
proof -
  let ?h = "uploadHandler (saveCandidateFromFileAsync depsEx sbLive cfgEx)"
  let ?files = "[annFile, annFile]"
  have ret: "alwaysReturns 31 ?h" by (rule route_handler_alwaysReturns)
  have le: "length ?files * (31 + 1) \<le> length (roundRobin 32)"
    "length ?files * (31 + 1) \<le> length (firstFirst 64)"
    by (simp_all add: roundRobin_def firstFirst_def length_concat sum_list_replicate)
  have wc: "workerCount 8 (length ?files) = 2" by (simp add: workerCount_def)
  note A = processFiles_outcomes [OF ret, of 8 ?files "roundRobin 32" idle]
  note B = processFiles_outcomes [OF ret, of 8 ?files "firstFirst 64" idle]
  have a: "\<forall>i < length ?files. \<exists>v.
             [Some (Uploaded ''ann.pdf'' (Some insertedAnn)),
              Some (NotUploaded ''ann.pdf'' ''Duplicate candidate is already being processed.'')] ! i
               = Some v \<and> resultOf ?h (?files ! i) v"
    using A run_twins_roundRobin by simp
  have b: "\<forall>i < length ?files. \<exists>v.
             [Some (Uploaded ''ann.pdf'' (Some insertedAnn)),
              Some (NotUploaded ''ann.pdf'' ''Duplicate candidate skipped (matched by email).'')] ! i
               = Some v \<and> resultOf ?h (?files ! i) v"
    using B run_twins_firstFirst by simp
  from a have r0: "resultOf ?h annFile (Uploaded ''ann.pdf'' (Some insertedAnn))"
    by (auto dest: spec [of _ 0])
  from a have r1: "resultOf ?h annFile
      (NotUploaded ''ann.pdf'' ''Duplicate candidate is already being processed.'')"
    by (auto dest: spec [of _ 1])
  from b have r2: "resultOf ?h annFile
      (NotUploaded ''ann.pdf'' ''Duplicate candidate skipped (matched by email).'')"
    by (auto dest: spec [of _ 1])
  let ?n = "nameOf :: upfile \<Rightarrow> (call list state, string) task"
  have retn: "alwaysReturns 1 ?n" by (rule nameOf_alwaysReturns)
  note C = processFiles_outcomes [OF retn, of 1 "[missingFile, annFile]" "firstFirst 4" idle]
  have "length [missingFile, annFile] * (1 + 1) \<le> length (firstFirst 4)"
    by (simp add: firstFirst_def)
  with C obtain rs where
    rs: "fst (processFilesWithConcurrency [missingFile, annFile] 1 ?n (firstFirst 4) idle) =
           Some (Inr rs)" by blast
  have "\<forall>f v. resultOf ?n f v \<longrightarrow> v = f_originalname f" using nameOf_result by blast
  with C rs have "rs = map (\<lambda>f. Some (f_originalname f)) [missingFile, annFile]" by blast
  with rs have n: "fst (processFilesWithConcurrency [missingFile, annFile] 1 ?n (firstFirst 4) idle) =
     Some (Inr [Some ''bob.pdf'', Some ''ann.pdf''])"
    by (simp add: missingFile_def annFile_def)
  from ret le wc run_twins_roundRobin run_twins_firstFirst r0 r1 r2 retn n
  show ?thesis by simp
qed

text \<open>
  Claim C5, as stated, fails: for one file and the configured limit 8 the route reports
  \<open>concurrencyUsed = 8\<close>, while the dispatcher runs one worker.
\<close>

theorem uploadResumes_concurrencyUsed_counterexample:
  "uploadResumes cfgEx (saveCandidateFromFileAsync depsEx sbFresh cfgEx) [annFile]
       (firstFirst 32) idle =
     (Some (BulkBody 201
        \<lparr>b_message = ''Bulk upload finished successfully.'', totalFiles = 1,
         concurrencyUsed = 8, b_maxFilesPerRequest = Some 500,
         uploadedCount = 1, failedCount = 0,
         uploaded = [(''ann.pdf'', Some insertedAnn)], failed = []\<rparr>),
      afterAnn) \<and>
   workerCount (bulkUploadConcurrency cfgEx) (length [annFile]) = 1 \<and>
   length (workers (start [annFile] (bulkUploadConcurrency cfgEx)
             (uploadHandler (saveCandidateFromFileAsync depsEx sbFresh cfgEx)) idle)) = 1 \<and>
   pending (start [annFile] (bulkUploadConcurrency cfgEx)
             (uploadHandler (saveCandidateFromFileAsync depsEx sbFresh cfgEx)) idle) = [0]"
  by code_simp

text \<open>
  Claim C5, amended. The \<open>concurrencyUsed\<close> of the batch response is the configured limit
  \<open>config.bulkUploadConcurrency\<close>, the value the route passes to the dispatcher. The number
  of workers is that limit clamped to at least 1 and at most \<open>N\<close>; it equals the reported
  value exactly when the limit is at least 1 and at most \<open>N\<close>.
\<close>

theorem uploadResumes_concurrencyUsed:
  fixes save :: "upfile \<Rightarrow> ('w, candidate option) task"
  assumes "uploadResumes cfg save files sched w = (Some (BulkBody st body), w')"
  shows "concurrencyUsed body = bulkUploadConcurrency cfg \<and>
         totalFiles body = length files \<and> files \<noteq> [] \<and>
         (\<exists>rs. processFilesWithConcurrency files (bulkUploadConcurrency cfg)
                  (uploadHandler save) sched w = (Some (Inr rs), w')) \<and>
         length (workers (start files (bulkUploadConcurrency cfg) (uploadHandler save) w)) =
           workerCount (bulkUploadConcurrency cfg) (length files) \<and>
         (int (workerCount (bulkUploadConcurrency cfg) (length files)) = concurrencyUsed body
            \<longleftrightarrow> 1 \<le> bulkUploadConcurrency cfg \<and> bulkUploadConcurrency cfg \<le> int (length files))"
proof -
  have ne: "files \<noteq> []" using assms by (auto simp: uploadResumes_def)
  then obtain rs where r: "processFilesWithConcurrency files (bulkUploadConcurrency cfg)
                  (uploadHandler save) sched w = (Some (Inr rs), w')"
    and b: "bulkBody cfg (length files) rs = BulkBody st body"
    using assms by (auto simp: uploadResumes_def split: prod.splits option.splits sum.splits)
  from b have cu: "concurrencyUsed body = bulkUploadConcurrency cfg" and tf: "totalFiles body = length files"
    by (auto simp: bulkBody_def Let_def)
  have wc: "int (workerCount (bulkUploadConcurrency cfg) (length files)) = bulkUploadConcurrency cfg
            \<longleftrightarrow> 1 \<le> bulkUploadConcurrency cfg \<and> bulkUploadConcurrency cfg \<le> int (length files)"
    using ne by (cases files) (auto simp: workerCount_def)
  show ?thesis using ne r cu tf wc by (simp add: start_length)
qed

theorem uploadResumes_concurrencyUsed_witness:
  "uploadResumes cfgSerial (saveCandidateFromFileAsync depsFlaky sbFresh cfgSerial)
       [missingFile, annFile] (firstFirst 64) idle =
     (Some (BulkBody 207
        \<lparr>b_message = ''Bulk upload finished with partial failures.'', totalFiles = 2,
         concurrencyUsed = 1, b_maxFilesPerRequest = Some 500,
         uploadedCount = 1, failedCount = 1,
         uploaded = [(''ann.pdf'', Some insertedAnn)],
         failed = [(''bob.pdf'', ''ENOENT: no such file or directory'')]\<rparr>),
      afterAnn) \<and>
   bulkUploadConcurrency cfgSerial = 1 \<and>
   workerCount (bulkUploadConcurrency cfgSerial) (length [missingFile, annFile]) = 1 \<and>
   workerCount (bulkUploadConcurrency cfgEx) (length [annFile]) = 1 \<and>
   bulkUploadConcurrency cfgEx = 8"
proof -
  have c1: "bulkUploadConcurrency cfgSerial = 1" by (simp add: cfgSerial_def)
  have c8: "bulkUploadConcurrency cfgEx = 8" by (simp add: cfgEx_def)
  from uploadResumes_concurrencyUsed [OF run_serial]
  have "int (workerCount (bulkUploadConcurrency cfgSerial) (length [missingFile, annFile])) = 1"
    using c1 by simp
  moreover from uploadResumes_concurrencyUsed [OF run_single]
  have "int (workerCount (bulkUploadConcurrency cfgEx) (length [annFile])) \<noteq> 8"
    using c8 by simp
  then have "workerCount (bulkUploadConcurrency cfgEx) (length [annFile]) = 1"
    using c8 by (simp add: workerCount_def)
  ultimately show ?thesis using run_serial c1 c8 by simp
qed

end
